theory Spec2Isabelle
  imports Main "HOL-Library.Word" "HOL-Library.Monad_Syntax"
begin

section \<open>Data model of \<^verbatim>\<open>page_tree\<close>\<close>

text \<open>
  The class \<^verbatim>\<open>page_tree\<close> of \<^verbatim>\<open>src/page_tree.h\<close> keeps 64-bit indexes in pages that
  it carves from two \<^verbatim>\<open>mmap_alloc\<close> arenas. A page starts with \<^verbatim>\<open>max_entry_per_node\<close>
  indexes; a leaf continues with the bytes of as many values of \<^verbatim>\<open>value_malloc_size\<close>
  bytes each, an interior node with as many \<^verbatim>\<open>t_node\<close> descriptors.

  Conventions of the embedding:
  \<^item> a function returns \<open>None\<close> where the C++ has no defined result: a read or write
    outside the arrays of a page, a wild pointer, or a loop that does not return;
  \<^item> \<^verbatim>\<open>std::bad_alloc\<close> is the value \<open>Inl BadAlloc\<close>, returned together with the state
    the exception leaves behind;
  \<^item> a \<^verbatim>\<open>void *\<close> to a page is an \<open>addr\<close>, a \<^verbatim>\<open>t_node *\<close> is an \<open>nref\<close>, and a pointer
    into the values of a page is the page with the offset in bytes from the end of its
    indexes;
  \<^item> \<^verbatim>\<open>unsigned\<close> values are naturals, \<^verbatim>\<open>int\<close> values are integers, and the conversions
    between them are written out where the source mixes the two.
\<close>

type_synonym t_idx = "64 word"

type_synonym val = "8 word list"

datatype addr = Null | NodePage nat | LeafPage nat

record t_node =
  ptr :: addr
  count :: nat

record page =
  p_idx :: "t_idx list"
  p_sub :: "t_node list"
  p_val :: "8 word list"

text \<open>
  Modelled from the spec: the arena \<^verbatim>\<open>mmap_alloc\<close> is not part of the sources. The spec
  describes it as \<^verbatim>\<open>alloc(size, alignment) -> pointer-or-failure\<close> over mapped memory, with
  no \<^verbatim>\<open>free\<close>. The model keeps the blocks handed out so far and the number of blocks the
  region can still provide; a block of freshly mapped memory reads as zero.
\<close>

record mmap_alloc =
  pages :: "page list"
  room :: nat

definition alloc :: "page \<Rightarrow> mmap_alloc \<Rightarrow> nat option \<times> mmap_alloc" where
  "alloc blank m =
     (if room m = 0 then (None, m)
      else (Some (length (pages m)), m\<lparr>pages := pages m @ [blank], room := room m - 1\<rparr>))"

record page_tree =
  value_malloc_size :: nat
  mm_nodes :: mmap_alloc
  mm_leaves :: mmap_alloc
  max_entry_per_node :: nat
  tree_root :: t_node
  tree_depth :: nat

datatype error = BadAlloc

datatype nref = RootRef | SubRef addr nat

type_synonym handle = "addr \<times> nat"

subsection \<open>Reading and writing memory\<close>

definition rd :: "'a list \<Rightarrow> nat \<Rightarrow> 'a option" where
  "rd xs i = (if i < length xs then Some (xs ! i) else None)"

definition wr :: "'a list \<Rightarrow> nat \<Rightarrow> 'a \<Rightarrow> 'a list option" where
  "wr xs i x = (if i < length xs then Some (xs[i := x]) else None)"

text \<open>\<^verbatim>\<open>memmove\<close> of \<open>n\<close> array elements from \<open>src + si\<close> to \<open>dst + di\<close>.\<close>

definition memmove :: "'a list \<Rightarrow> nat \<Rightarrow> 'a list \<Rightarrow> nat \<Rightarrow> nat \<Rightarrow> 'a list option" where
  "memmove dst di src si n =
     (if si + n \<le> length src \<and> di + n \<le> length dst
      then Some (take di dst @ take n (drop si src) @ drop (di + n) dst)
      else None)"

definition get_page :: "page_tree \<Rightarrow> addr \<Rightarrow> page option" where
  "get_page s p =
     (case p of
        Null \<Rightarrow> None
      | NodePage k \<Rightarrow> rd (pages (mm_nodes s)) k
      | LeafPage k \<Rightarrow> rd (pages (mm_leaves s)) k)"

definition put_page :: "page_tree \<Rightarrow> addr \<Rightarrow> page \<Rightarrow> page_tree" where
  "put_page s p pg =
     (case p of
        Null \<Rightarrow> s
      | NodePage k \<Rightarrow> s\<lparr>mm_nodes := (mm_nodes s)\<lparr>pages := (pages (mm_nodes s))[k := pg]\<rparr>\<rparr>
      | LeafPage k \<Rightarrow> s\<lparr>mm_leaves := (mm_leaves s)\<lparr>pages := (pages (mm_leaves s))[k := pg]\<rparr>\<rparr>)"

definition rd_idx :: "page_tree \<Rightarrow> addr \<Rightarrow> nat \<Rightarrow> t_idx option" where
  "rd_idx s p i = do { pg \<leftarrow> get_page s p; rd (p_idx pg) i }"

definition wr_idx :: "page_tree \<Rightarrow> addr \<Rightarrow> nat \<Rightarrow> t_idx \<Rightarrow> page_tree option" where
  "wr_idx s p i k =
     do { pg \<leftarrow> get_page s p; ks \<leftarrow> wr (p_idx pg) i k; Some (put_page s p (pg\<lparr>p_idx := ks\<rparr>)) }"

definition rd_node :: "page_tree \<Rightarrow> nref \<Rightarrow> t_node option" where
  "rd_node s r =
     (case r of
        RootRef \<Rightarrow> Some (tree_root s)
      | SubRef p i \<Rightarrow> do { pg \<leftarrow> get_page s p; rd (p_sub pg) i })"

definition wr_node :: "page_tree \<Rightarrow> nref \<Rightarrow> t_node \<Rightarrow> page_tree option" where
  "wr_node s r n =
     (case r of
        RootRef \<Rightarrow> Some (s\<lparr>tree_root := n\<rparr>)
      | SubRef p i \<Rightarrow>
          do { pg \<leftarrow> get_page s p; ns \<leftarrow> wr (p_sub pg) i n; Some (put_page s p (pg\<lparr>p_sub := ns\<rparr>)) })"

text \<open>
  \<^verbatim>\<open>node_to_value\<close> adds \<^verbatim>\<open>idx * value_malloc_size\<close> to the end of the indexes. Both factors
  are \<^verbatim>\<open>unsigned\<close>, so the product is taken modulo \<open>2\<^sup>3\<^sup>2\<close>.
\<close>

definition value_off :: "nat \<Rightarrow> nat \<Rightarrow> nat" where
  "value_off vsz i = (i * vsz) mod 4294967296"

definition node_to_value :: "nat \<Rightarrow> addr \<Rightarrow> nat \<Rightarrow> handle" where
  "node_to_value vsz node i = (node, value_off vsz i)"

text \<open>Conversion of an \<^verbatim>\<open>int\<close> to \<^verbatim>\<open>unsigned\<close> and back, on 32 bits.\<close>

definition u32 :: "int \<Rightarrow> nat" where
  "u32 x = nat (x mod 4294967296)"

definition i32 :: "int \<Rightarrow> int" where
  "i32 x = (x + 2147483648) mod 4294967296 - 2147483648"

subsection \<open>Page allocation\<close>

definition blank_node :: "nat \<Rightarrow> page" where
  "blank_node n = \<lparr>p_idx = replicate n 0, p_sub = replicate n \<lparr>ptr = Null, count = 0\<rparr>, p_val = []\<rparr>"

text \<open>
  A leaf page is allocated with \<^verbatim>\<open>( sizeof(t_idx) + value_malloc_size ) * max_entry_per_node\<close>
  bytes, a product in \<^verbatim>\<open>size_t\<close>: the indexes and \<open>n * vsz\<close> bytes of values.
\<close>

definition blank_leaf :: "nat \<Rightarrow> nat \<Rightarrow> page" where
  "blank_leaf n vsz = \<lparr>p_idx = replicate n 0, p_sub = [], p_val = replicate (n * vsz) 0\<rparr>"

definition alloc_node_page :: "page_tree \<Rightarrow> (error + addr) \<times> page_tree" where
  "alloc_node_page s =
     (case alloc (blank_node (max_entry_per_node s)) (mm_nodes s) of
        (None, m) \<Rightarrow> (Inl BadAlloc, s\<lparr>mm_nodes := m\<rparr>)
      | (Some k, m) \<Rightarrow> (Inr (NodePage k), s\<lparr>mm_nodes := m\<rparr>))"

definition alloc_leaf_page :: "page_tree \<Rightarrow> (error + addr) \<times> page_tree" where
  "alloc_leaf_page s =
     (case alloc (blank_leaf (max_entry_per_node s) (value_malloc_size s)) (mm_leaves s) of
        (None, m) \<Rightarrow> (Inl BadAlloc, s\<lparr>mm_leaves := m\<rparr>)
      | (Some k, m) \<Rightarrow> (Inr (LeafPage k), s\<lparr>mm_leaves := m\<rparr>))"

section \<open>Binary search in a page\<close>

text \<open>The loop \<^verbatim>\<open>while ( mid && ary[ mid - 1 ] == value ) --mid;\<close> of \<^verbatim>\<open>binsearch_index\<close>.\<close>

function binsearch_backup :: "t_idx \<Rightarrow> t_idx list \<Rightarrow> nat \<Rightarrow> nat option" where
  "binsearch_backup v ary mid =
     (if mid = 0 then Some mid
      else do {
        x \<leftarrow> rd ary (mid - 1);
        if x = v then binsearch_backup v ary (mid - 1) else Some mid })"
  by pat_completeness auto
termination
  by (relation "measure (\<lambda>(v, ary, mid). mid)") auto

declare binsearch_backup.simps [simp del]

text \<open>
  The \<^verbatim>\<open>for (;;)\<close> loop of \<^verbatim>\<open>binsearch_index\<close> on its variables \<^verbatim>\<open>min\<close> and \<^verbatim>\<open>max\<close>. The sum
  \<^verbatim>\<open>min + max\<close> is computed on 32 bits. The loop is not total on arbitrary \<^verbatim>\<open>min\<close> and
  \<^verbatim>\<open>max\<close>, so not returning is the result \<open>None\<close>.
\<close>

partial_function (option) binsearch_loop :: "t_idx \<Rightarrow> t_idx list \<Rightarrow> nat \<Rightarrow> nat \<Rightarrow> int option" where
  "binsearch_loop v ary mn mx =
     do {
       x \<leftarrow> rd ary (((mn + mx) mod 4294967296) div 2);
       if x > v then
         (if ((mn + mx) mod 4294967296) div 2 = 0 then Some (- 1)
          else if ((mn + mx) mod 4294967296) div 2 = mn
          then Some (int (((mn + mx) mod 4294967296) div 2 - 1))
          else binsearch_loop v ary mn (((mn + mx) mod 4294967296) div 2 - 1))
       else if x = v then
         map_option int (binsearch_backup v ary (((mn + mx) mod 4294967296) div 2))
       else
         (if ((mn + mx) mod 4294967296) div 2 = mx
          then Some (int (((mn + mx) mod 4294967296) div 2))
          else binsearch_loop v ary (((mn + mx) mod 4294967296) div 2 + 1) mx)
     }"

definition binsearch_index :: "t_idx \<Rightarrow> t_idx list \<Rightarrow> nat \<Rightarrow> int option" where
  "binsearch_index v ary cnt = (if cnt = 0 then Some (- 1) else binsearch_loop v ary 0 (cnt - 1))"

section \<open>Lookup\<close>

text \<open>
  \<^verbatim>\<open>find_rec\<close> with its reference parameter \<^verbatim>\<open>sub_idx\<close> returned next to the result, and
  the object it is a member of passed through. \<open>find_run\<close> is the \<^verbatim>\<open>for\<close> loop over the
  children with an equal index (lines 169 to 179); its argument \<open>d\<close> is \<^verbatim>\<open>depth - 1\<close>.
\<close>

function find_rec :: "t_idx \<Rightarrow> int \<Rightarrow> addr \<Rightarrow> nat \<Rightarrow> nat \<Rightarrow> page_tree \<Rightarrow> (handle option \<times> int \<times> page_tree) option"
  and find_run :: "t_idx \<Rightarrow> int \<Rightarrow> addr \<Rightarrow> nat \<Rightarrow> nat \<Rightarrow> nat \<Rightarrow> page_tree \<Rightarrow> (handle option \<times> int \<times> page_tree) option"
where
  "find_rec idx sub_idx p cnt depth s =
     do {
       pg \<leftarrow> get_page s p;
       r \<leftarrow> binsearch_index idx (p_idx pg) cnt;
       if r < 0 then Some (None, sub_idx, s)
       else do {
         k \<leftarrow> rd (p_idx pg) (nat r);
         if k = idx then
           (if depth = 0 then
              (if u32 sub_idx < u32 (int cnt - r) then
                 (if r + sub_idx < 0 then None
                  else do {
                    k' \<leftarrow> rd (p_idx pg) (nat (r + sub_idx));
                    if k' = idx then Some (Some (node_to_value (value_malloc_size s) p (nat (r + sub_idx))), sub_idx, s)
                    else Some (None, - 1, s) })
               else Some (None, i32 (sub_idx - (int cnt - r)), s))
            else find_run idx sub_idx p cnt (depth - 1) (nat r) s)
         else
           (if depth = 0 then Some (None, sub_idx, s)
            else do {
              n \<leftarrow> rd (p_sub pg) (nat r);
              find_rec idx sub_idx (ptr n) (count n) (depth - 1) s })
       }
     }"
| "find_run idx sub_idx p cnt d i s =
     (if i < cnt then
        do {
          pg \<leftarrow> get_page s p;
          k \<leftarrow> rd (p_idx pg) i;
          if k = idx then
            do {
              n \<leftarrow> rd (p_sub pg) i;
              res \<leftarrow> find_rec idx sub_idx (ptr n) (count n) d s;
              if fst res \<noteq> None then Some res
              else if fst (snd res) < 0 then Some (None, fst (snd res), snd (snd res))
              else find_run idx (fst (snd res)) p cnt d (i + 1) (snd (snd res))
            }
          else Some (None, sub_idx, s)
        }
      else Some (None, sub_idx, s))"
  by pat_completeness auto
termination
  by (relation "measures
       [\<lambda>x. case x of
          Inl (idx, sub_idx, p, cnt, depth, s) \<Rightarrow> 2 * depth
        | Inr (idx, sub_idx, p, cnt, d, i, s) \<Rightarrow> 2 * d + 1,
        \<lambda>x. case x of
          Inl (idx, sub_idx, p, cnt, depth, s) \<Rightarrow> 0
        | Inr (idx, sub_idx, p, cnt, d, i, s) \<Rightarrow> cnt - i]") auto

declare find_rec.simps [simp del] find_run.simps [simp del]

definition find_tree :: "t_idx \<Rightarrow> int \<Rightarrow> page_tree \<Rightarrow> (handle option \<times> page_tree) option" where
  "find_tree idx sub_idx s =
     do {
       res \<leftarrow> find_rec idx sub_idx (ptr (tree_root s)) (count (tree_root s)) (tree_depth s) s;
       Some (fst res, snd (snd res))
     }"

section \<open>Splitting a page\<close>

text \<open>The loop \<^verbatim>\<open>while ( p_idx[ split_idx ] == p_idx[ 0 ] ) ++split_idx;\<close>\<close>

function split_fwd :: "t_idx list \<Rightarrow> nat \<Rightarrow> nat option" where
  "split_fwd ks j =
     do {
       a \<leftarrow> rd ks j;
       b \<leftarrow> rd ks 0;
       if a = b then split_fwd ks (j + 1) else Some j
     }"
  by pat_completeness auto
termination
  by (relation "measure (\<lambda>(ks, j). length ks - j)") (auto simp: rd_def split: if_splits)

declare split_fwd.simps [simp del]

text \<open>The loop \<^verbatim>\<open>while ( split_idx > 0 && p_idx[ split_idx ] == p_idx[ split_idx - 1 ] ) --split_idx;\<close>\<close>

function split_back :: "t_idx list \<Rightarrow> nat \<Rightarrow> nat option" where
  "split_back ks j =
     (if j > 0 then
        do {
          a \<leftarrow> rd ks j;
          b \<leftarrow> rd ks (j - 1);
          if a = b then split_back ks (j - 1) else Some j
        }
      else Some j)"
  by pat_completeness auto
termination
  by (relation "measure (\<lambda>(ks, j). j)") auto

declare split_back.simps [simp del]

text \<open>
  Lines 201 to 219 of \<^verbatim>\<open>split_node\<close>: the index at which a page of \<^verbatim>\<open>cnt\<close> entries is cut.
  With \<^verbatim>\<open>cnt = 0\<close> the source reads \<^verbatim>\<open>p_idx[ cnt - 1 ]\<close> at index \<open>2\<^sup>3\<^sup>2 - 1\<close>, outside the page.
\<close>

definition split_index :: "t_idx list \<Rightarrow> nat \<Rightarrow> nat option" where
  "split_index ks cnt =
     do {
       a \<leftarrow> rd ks (cnt div 2);
       b \<leftarrow> rd ks 0;
       if a = b then
         do {
           l \<leftarrow> (if cnt = 0 then None else rd ks (cnt - 1));
           if l \<noteq> b then split_fwd ks (cnt div 2) else Some (cnt div 2)
         }
       else split_back ks (cnt div 2)
     }"

text \<open>
  \<^verbatim>\<open>split_node\<close>. The descriptor \<^verbatim>\<open>*new_node\<close> is a local variable of the caller that only
  this function writes, so it is returned. The counts are written before the page is
  allocated (lines 221 to 226), and the indexes are copied from the start of the old page
  (line 229).
\<close>

definition split_node :: "nref \<Rightarrow> bool \<Rightarrow> page_tree \<Rightarrow> ((error + t_node) \<times> page_tree) option" where
  "split_node old_node is_leaf s =
     do {
       old \<leftarrow> rd_node s old_node;
       pg \<leftarrow> get_page s (ptr old);
       split_idx \<leftarrow> split_index (p_idx pg) (count old);
       s1 \<leftarrow> wr_node s old_node (old\<lparr>count := split_idx\<rparr>);
       (case (if is_leaf then alloc_leaf_page s1 else alloc_node_page s1) of
          (Inl e, s2) \<Rightarrow> Some (Inl e, s2)
        | (Inr np, s2) \<Rightarrow>
            do {
              old2 \<leftarrow> rd_node s2 old_node;
              src \<leftarrow> get_page s2 (ptr old2);
              dst \<leftarrow> get_page s2 np;
              ks \<leftarrow> memmove (p_idx dst) 0 (p_idx src) 0 (u32 (int (count old) - int split_idx));
              vs \<leftarrow> (if is_leaf
                     then memmove (p_val dst) (value_off (value_malloc_size s2) 0)
                            (p_val src) (value_off (value_malloc_size s2) split_idx)
                            ((u32 (int (count old) - int split_idx) * value_malloc_size s2) mod 4294967296)
                     else Some (p_val dst));
              ns \<leftarrow> (if is_leaf then Some (p_sub dst)
                     else memmove (p_sub dst) 0 (p_sub src) split_idx (u32 (int (count old) - int split_idx)));
              Some (Inr \<lparr>ptr = np, count = u32 (int (count old) - int split_idx)\<rparr>,
                    put_page s2 np (dst\<lparr>p_idx := ks, p_sub := ns, p_val := vs\<rparr>))
            })
     }"

section \<open>Insertion\<close>

text \<open>
  Lines 255 to 269 of \<^verbatim>\<open>insert_rec\<close>: the position in the leaf that \<^verbatim>\<open>leaf\<close> describes, the
  two \<^verbatim>\<open>memmove\<close>s of one index and one value, and the write of the index. The result is
  the position and the state; the caller increments the count where \<^verbatim>\<open>leaf\<close> points.
\<close>

definition leaf_put :: "t_idx \<Rightarrow> t_node \<Rightarrow> page_tree \<Rightarrow> (nat \<times> page_tree) option" where
  "leaf_put idx leaf s =
     do {
       pg \<leftarrow> get_page s (ptr leaf);
       r \<leftarrow> binsearch_index idx (p_idx pg) (count leaf);
       i \<leftarrow> (if nat r < count leaf
              then do { k \<leftarrow> rd (p_idx pg) (nat r); Some (if k < idx then nat r + 1 else nat r) }
              else Some (nat r));
       ks \<leftarrow> (if i < count leaf then memmove (p_idx pg) (i + 1) (p_idx pg) i 1 else Some (p_idx pg));
       vs \<leftarrow> (if i < count leaf
               then memmove (p_val pg) (value_off (value_malloc_size s) (i + 1))
                      (p_val pg) (value_off (value_malloc_size s) i) (value_malloc_size s)
               else Some (p_val pg));
       ks' \<leftarrow> wr ks i idx;
       Some (i, put_page s (ptr leaf) (pg\<lparr>p_idx := ks', p_val := vs\<rparr>))
     }"

text \<open>
  Lines 306 to 317: the position of the new sibling's first index in the interior page that
  \<^verbatim>\<open>node\<close> describes, and the two \<^verbatim>\<open>memmove\<close>s that make room there. Nothing more is in
  the source.
\<close>

definition node_make_room :: "t_idx \<Rightarrow> t_node \<Rightarrow> page_tree \<Rightarrow> page_tree option" where
  "node_make_room newleaf_idx node s =
     do {
       pg \<leftarrow> get_page s (ptr node);
       r \<leftarrow> binsearch_index newleaf_idx (p_idx pg) (count node);
       i \<leftarrow> (if nat r < count node
              then do { k \<leftarrow> rd (p_idx pg) (nat r); Some (if k < newleaf_idx then nat r + 1 else nat r) }
              else Some (nat r));
       ks \<leftarrow> (if i < count node then memmove (p_idx pg) (i + 1) (p_idx pg) i 1 else Some (p_idx pg));
       ns \<leftarrow> (if i < count node then memmove (p_sub pg) (i + 1) (p_sub pg) i 1 else Some (p_sub pg));
       Some (put_page s (ptr node) (pg\<lparr>p_idx := ks, p_sub := ns\<rparr>))
     }"

text \<open>\<^verbatim>\<open>leaf->count++\<close> through a pointer into the tree.\<close>

definition incr_count :: "nref \<Rightarrow> page_tree \<Rightarrow> (t_node \<times> page_tree) option" where
  "incr_count r s =
     do {
       n \<leftarrow> rd_node s r;
       s' \<leftarrow> wr_node s r (n\<lparr>count := (count n + 1) mod 4294967296\<rparr>);
       Some (n, s')
     }"

function insert_rec :: "t_idx \<Rightarrow> nref \<Rightarrow> nat \<Rightarrow> page_tree \<Rightarrow> ((error + handle \<times> t_node) \<times> page_tree) option" where
  "insert_rec idx curnode depth s =
     (if depth = 0 then
        do {
          cur \<leftarrow> rd_node s curnode;
          if count cur \<ge> max_entry_per_node s then
            do {
              sp \<leftarrow> split_node curnode True s;
              (case fst sp of
                 Inl e \<Rightarrow> Some (Inl e, snd sp)
               | Inr sibling \<Rightarrow>
                   do {
                     k0 \<leftarrow> rd_idx (snd sp) (ptr sibling) 0;
                     if idx \<ge> k0 then
                       do {
                         put \<leftarrow> leaf_put idx sibling (snd sp);
                         Some (Inr (node_to_value (value_malloc_size s) (ptr sibling) (fst put),
                                    sibling\<lparr>count := (count sibling + 1) mod 4294967296\<rparr>), snd put)
                       }
                     else
                       do {
                         cur2 \<leftarrow> rd_node (snd sp) curnode;
                         put \<leftarrow> leaf_put idx cur2 (snd sp);
                         inc \<leftarrow> incr_count curnode (snd put);
                         Some (Inr (node_to_value (value_malloc_size s) (ptr (fst inc)) (fst put), sibling), snd inc)
                       }
                   })
            }
          else
            do {
              put \<leftarrow> leaf_put idx cur s;
              inc \<leftarrow> incr_count curnode (snd put);
              Some (Inr (node_to_value (value_malloc_size s) (ptr (fst inc)) (fst put), \<lparr>ptr = Null, count = 0\<rparr>), snd inc)
            }
        }
      else
        do {
          cur \<leftarrow> rd_node s curnode;
          pg \<leftarrow> get_page s (ptr cur);
          r \<leftarrow> binsearch_index idx (p_idx pg) (count cur);
          rec \<leftarrow> insert_rec idx (SubRef (ptr cur) (nat r)) (depth - 1) s;
          (case fst rec of
             Inl e \<Rightarrow> Some (Inl e, snd rec)
           | Inr (ret_ptr, splitted) \<Rightarrow>
               do {
                 sub \<leftarrow> rd_node (snd rec) (SubRef (ptr cur) (nat r));
                 sub_idx \<leftarrow> rd_idx (snd rec) (ptr sub) 0;
                 pi \<leftarrow> rd_idx (snd rec) (ptr cur) (nat r);
                 s2 \<leftarrow> (if sub_idx < pi then wr_idx (snd rec) (ptr cur) (nat r) sub_idx else Some (snd rec));
                 if ptr splitted = Null then Some (Inr (ret_ptr, \<lparr>ptr = Null, count = 0\<rparr>), s2)
                 else
                   do {
                     newleaf_idx \<leftarrow> rd_idx s2 (ptr splitted) 0;
                     cur2 \<leftarrow> rd_node s2 curnode;
                     if count cur2 \<ge> max_entry_per_node s2 then
                       do {
                         sp \<leftarrow> split_node curnode False s2;
                         (case fst sp of
                            Inl e \<Rightarrow> Some (Inl e, snd sp)
                          | Inr sibling \<Rightarrow>
                              do {
                                k0 \<leftarrow> rd_idx (snd sp) (ptr sibling) 0;
                                cur3 \<leftarrow> rd_node (snd sp) curnode;
                                s4 \<leftarrow> node_make_room newleaf_idx
                                       (if k0 \<ge> newleaf_idx then sibling else cur3) (snd sp);
                                Some (Inr (ret_ptr, sibling), s4)
                              })
                       }
                     else
                       do {
                         s3 \<leftarrow> node_make_room newleaf_idx cur2 s2;
                         Some (Inr (ret_ptr, \<lparr>ptr = Null, count = 0\<rparr>), s3)
                       }
                   }
               })
        })"
  by pat_completeness auto
termination
  by (relation "measure (\<lambda>(idx, curnode, depth, s). depth)") auto

declare insert_rec.simps [simp del]

text \<open>The public \<^verbatim>\<open>insert\<close>: the depth is incremented when \<^verbatim>\<open>newnode.ptr\<close> was set.\<close>

definition insert_tree :: "t_idx \<Rightarrow> page_tree \<Rightarrow> ((error + handle) \<times> page_tree) option" where
  "insert_tree idx s =
     do {
       rec \<leftarrow> insert_rec idx RootRef (tree_depth s) s;
       (case fst rec of
          Inl e \<Rightarrow> Some (Inl e, snd rec)
        | Inr (p, newnode) \<Rightarrow>
            Some (Inr p,
                  if ptr newnode \<noteq> Null
                  then (snd rec)\<lparr>tree_depth := (tree_depth (snd rec) + 1) mod 4294967296\<rparr>
                  else snd rec))
     }"

text \<open>
  The constructor. \<^verbatim>\<open>max_entry_per_node\<close> is \<^verbatim>\<open>4096 / sizeof(t_idx)\<close>, that is 512. What the
  two arenas can provide is a parameter in place of \<^verbatim>\<open>mmap_dir\<close>.
\<close>

definition page_tree_new :: "nat \<Rightarrow> nat \<Rightarrow> nat \<Rightarrow> error + page_tree" where
  "page_tree_new vsz nodes_room leaves_room =
     (case alloc_leaf_page
             \<lparr>value_malloc_size = vsz,
              mm_nodes = \<lparr>pages = [], room = nodes_room\<rparr>,
              mm_leaves = \<lparr>pages = [], room = leaves_room\<rparr>,
              max_entry_per_node = 4096 div 8,
              tree_root = \<lparr>ptr = Null, count = 0\<rparr>,
              tree_depth = 0\<rparr> of
        (Inl e, s) \<Rightarrow> Inl e
      | (Inr p, s) \<Rightarrow> Inr (s\<lparr>tree_root := \<lparr>ptr = p, count = 0\<rparr>, tree_depth := 0\<rparr>))"

section \<open>Predicates of the specification\<close>

text \<open>
  What \<^verbatim>\<open>binsearch_index\<close> returns on an array whose first \<open>cnt\<close> entries are sorted: on an
  exact match the first index of the run of \<open>v\<close>, otherwise the last index whose entry is
  below \<open>v\<close>, which is \<open>-1\<close> when there is none.
\<close>

definition bs_post :: "t_idx \<Rightarrow> t_idx list \<Rightarrow> nat \<Rightarrow> int \<Rightarrow> bool" where
  "bs_post v ary cnt r \<longleftrightarrow>
     - 1 \<le> r \<and> r < int cnt \<and>
     (if \<exists>j<cnt. ary ! j = v
      then 0 \<le> r \<and> ary ! nat r = v \<and> (\<forall>j<cnt. (ary ! j < v) = (int j < r))
      else (\<forall>j<cnt. (ary ! j < v) = (int j \<le> r)))"

text \<open>
  The result the specification words: the position of the first occurrence of the largest
  key that is at most the target, or \<open>-1\<close> (before the start) when every key is larger.
\<close>

definition first_of_largest_le :: "t_idx \<Rightarrow> t_idx list \<Rightarrow> nat \<Rightarrow> int \<Rightarrow> bool" where
  "first_of_largest_le v ary cnt r \<longleftrightarrow>
     (if \<exists>j<cnt. ary ! j \<le> v
      then 0 \<le> r \<and> nat r < cnt \<and> ary ! nat r \<le> v \<and>
           (\<forall>j<cnt. ary ! j \<le> v \<longrightarrow> ary ! j \<le> ary ! nat r) \<and>
           (\<forall>j<nat r. ary ! j \<noteq> ary ! nat r)
      else r = - 1)"


section \<open>A root that is a leaf\<close>

text \<open>
  The position lines 256 to 261 of \<^verbatim>\<open>insert_rec\<close> compute in a sorted page (the number of
  indexes below the new one), the page that lines 263 to 269 leave, and the states whose
  root is a sorted leaf.
\<close>

definition ins_pos :: "t_idx \<Rightarrow> t_idx list \<Rightarrow> nat" where
  "ins_pos idx ks = length (filter (\<lambda>x. x < idx) ks)"

text \<open>
  The values of a page, seen where the offsets of \<^verbatim>\<open>node_to_value\<close> do not wrap: the value
  in slot \<open>i\<close> is the \<open>vsz\<close> bytes from \<open>i * vsz\<close>, and \<open>slot_upd\<close> replaces them. \<open>value_room\<close>
  says that the page has the bytes of all its values and that their size is below \<open>2\<^sup>3\<^sup>2\<close>,
  so that no product \<^verbatim>\<open>idx * value_malloc_size\<close> of a slot of the page wraps.
\<close>

definition value_at :: "nat \<Rightarrow> 8 word list \<Rightarrow> nat \<Rightarrow> val" where
  "value_at vsz b i = take vsz (drop (i * vsz) b)"

definition values_of :: "nat \<Rightarrow> 8 word list \<Rightarrow> nat \<Rightarrow> val list" where
  "values_of vsz b n = map (value_at vsz b) [0..<n]"

definition slot_upd :: "nat \<Rightarrow> 8 word list \<Rightarrow> nat \<Rightarrow> val \<Rightarrow> 8 word list" where
  "slot_upd vsz b i w = take (i * vsz) b @ w @ drop (i * vsz + vsz) b"

definition value_room :: "page_tree \<Rightarrow> page \<Rightarrow> bool" where
  "value_room s pg \<longleftrightarrow>
     length (p_val pg) = max_entry_per_node s * value_malloc_size s \<and>
     max_entry_per_node s * value_malloc_size s < 4294967296"

definition page_ins :: "nat \<Rightarrow> t_idx \<Rightarrow> nat \<Rightarrow> page \<Rightarrow> page" where
  "page_ins vsz idx cnt pg =
     pg\<lparr>p_idx := (if ins_pos idx (take cnt (p_idx pg)) < cnt
                  then (p_idx pg)[ins_pos idx (take cnt (p_idx pg)) + 1 :=
                         p_idx pg ! ins_pos idx (take cnt (p_idx pg))]
                  else p_idx pg)[ins_pos idx (take cnt (p_idx pg)) := idx],
        p_val := (if ins_pos idx (take cnt (p_idx pg)) < cnt
                  then slot_upd vsz (p_val pg) (ins_pos idx (take cnt (p_idx pg)) + 1)
                         (value_at vsz (p_val pg) (ins_pos idx (take cnt (p_idx pg))))
                  else p_val pg)\<rparr>"

definition leaf_root :: "page_tree \<Rightarrow> page \<Rightarrow> bool" where
  "leaf_root s pg \<longleftrightarrow>
     tree_depth s = 0 \<and> get_page s (ptr (tree_root s)) = Some pg \<and>
     length (p_idx pg) = max_entry_per_node s \<and>
     max_entry_per_node s \<le> 2147483648 \<and> count (tree_root s) \<le> max_entry_per_node s \<and>
     sorted (take (count (tree_root s)) (p_idx pg))"

definition leaf_keys :: "page_tree \<Rightarrow> t_idx list" where
  "leaf_keys s =
     (case get_page s (ptr (tree_root s)) of
        None \<Rightarrow> []
      | Some pg \<Rightarrow> take (count (tree_root s)) (p_idx pg))"


section \<open>Sequences of inserts\<close>

text \<open>
  The caller's side of \<^verbatim>\<open>insert\<close>: the write of the bytes of a value through the pointer
  returned (\<open>store_value\<close>), the read of \<^verbatim>\<open>value_malloc_size\<close> bytes through a pointer
  \<^verbatim>\<open>find\<close> returned (\<open>load_value\<close>), and a sequence of inserts each followed by the write
  of its value (\<open>insert_all\<close>).

  \<open>leaf_state s ks vs\<close> describes a tree that is one leaf with \<open>value_room\<close>: the indexes
  \<open>ks\<close> and the values \<open>vs\<close> in the first slots of the root page, the rest of the index
  array as the arena handed it out. \<open>model_run\<close> is the list-level account of \<open>insert_all\<close> on such a
  tree (the slot of each insert, and the indexes and values afterwards), valid as long as
  every insert has at most one stored index that is not below the new one (\<open>one_slot\<close>),
  which is what the \<^verbatim>\<open>memmove\<close> of a single slot can move.
\<close>

definition store_value :: "handle \<Rightarrow> val \<Rightarrow> page_tree \<Rightarrow> page_tree option" where
  "store_value h v s =
     do {
       pg \<leftarrow> get_page s (fst h);
       vs \<leftarrow> memmove (p_val pg) (snd h) v 0 (length v);
       Some (put_page s (fst h) (pg\<lparr>p_val := vs\<rparr>))
     }"


fun insert_all :: "(t_idx \<times> val) list \<Rightarrow> page_tree \<Rightarrow> (handle list \<times> page_tree) option" where
  "insert_all [] s = Some ([], s)"
| "insert_all (kv # kvs) s =
     (case insert_tree (fst kv) s of
        Some (Inr h, s1) \<Rightarrow>
          (case store_value h (snd kv) s1 of
             Some s2 \<Rightarrow>
               (case insert_all kvs s2 of
                  Some (hs, s3) \<Rightarrow> Some (h # hs, s3)
                | None \<Rightarrow> None)
           | None \<Rightarrow> None)
      | _ \<Rightarrow> None)"

definition leaf_state :: "page_tree \<Rightarrow> t_idx list \<Rightarrow> val list \<Rightarrow> bool" where
  "leaf_state s ks vs \<longleftrightarrow>
     (\<exists>pg r. leaf_root s pg \<and> value_room s pg \<and> ptr (tree_root s) = LeafPage r \<and>
        count (tree_root s) = length ks \<and>
        p_idx pg = ks @ replicate (max_entry_per_node s - length ks) 0 \<and>
        values_of (value_malloc_size s) (p_val pg) (length ks) = vs \<and> p_sub pg = [])"

definition same_frame :: "page_tree \<Rightarrow> page_tree \<Rightarrow> bool" where
  "same_frame s s' \<longleftrightarrow>
     ptr (tree_root s') = ptr (tree_root s) \<and> mm_nodes s' = mm_nodes s \<and>
     max_entry_per_node s' = max_entry_per_node s \<and>
     value_malloc_size s' = value_malloc_size s \<and>
     room (mm_leaves s') = room (mm_leaves s) \<and>
     length (pages (mm_leaves s')) = length (pages (mm_leaves s))"

fun model_run :: "t_idx list \<Rightarrow> val list \<Rightarrow> (t_idx \<times> val) list \<Rightarrow> nat list \<times> t_idx list \<times> val list" where
  "model_run ks vs [] = ([], ks, vs)"
| "model_run ks vs (kv # kvs) =
     (case model_run (take (ins_pos (fst kv) ks) ks @ fst kv # drop (ins_pos (fst kv) ks) ks)
                     (take (ins_pos (fst kv) ks) vs @ snd kv # drop (ins_pos (fst kv) ks) vs) kvs of
        (is, ks', vs') \<Rightarrow> (ins_pos (fst kv) ks # is, ks', vs'))"

fun one_slot :: "t_idx list \<Rightarrow> (t_idx \<times> val) list \<Rightarrow> bool" where
  "one_slot ks [] = True"
| "one_slot ks (kv # kvs) =
     (length ks \<le> ins_pos (fst kv) ks + 1 \<and>
      one_slot (take (ins_pos (fst kv) ks) ks @ fst kv # drop (ins_pos (fst kv) ks) ks) kvs)"


text \<open>
  The tree the constructor returns for values of one byte, with room for eight more pages
  in each arena, and what a caller observes after a sequence of inserts: the pointers the
  inserts returned, the pointer a lookup returns, and the value behind it.
\<close>

definition fresh_tree :: page_tree where
  "fresh_tree =
     \<lparr>value_malloc_size = 1,
      mm_nodes = \<lparr>pages = [], room = 8\<rparr>,
      mm_leaves = \<lparr>pages = [blank_leaf 512 1], room = 8\<rparr>,
      max_entry_per_node = 512,
      tree_root = \<lparr>ptr = LeafPage 0, count = 0\<rparr>,
      tree_depth = 0\<rparr>"





definition keys_after :: "(t_idx \<times> val) list \<Rightarrow> page_tree \<Rightarrow> t_idx list option" where
  "keys_after kvs s = map_option (\<lambda>r. leaf_keys (snd r)) (insert_all kvs s)"


text \<open>The inserts of the indexes \<open>a\<close>, \<open>a + 1\<close>, ... \<open>b - 1\<close> in this order, each with the value 0.\<close>

definition asc :: "nat \<Rightarrow> nat \<Rightarrow> (t_idx \<times> val) list" where
  "asc a b = map (\<lambda>j. (word_of_nat j, [0])) [a..<b]"


section \<open>Splitting a page\<close>

text \<open>
  The index at which lines 201 to 219 of \<^verbatim>\<open>split_node\<close> cut a full sorted page: the start
  of the run of the middle index, or the end of that run when it starts the page and does
  not fill it, or the middle when one index fills the page.
\<close>

definition split_point :: "t_idx list \<Rightarrow> nat" where
  "split_point ks =
     (if ks ! (length ks div 2) = ks ! 0
      then (if ks ! (length ks - 1) \<noteq> ks ! 0 then length (filter (\<lambda>x. x = ks ! 0) ks)
            else length ks div 2)
      else ins_pos (ks ! (length ks div 2)) ks)"


text \<open>
  What is observed of a split and of an insert: the tree after a sequence of inserts, the
  valid indexes of the page a descriptor points to, the indexes of the two pages after
  \<^verbatim>\<open>split_node\<close> on the root, and after an insert the pointer returned, the depth, the root
  descriptor, the number of interior pages allocated, and what \<^verbatim>\<open>find\<close> of the same index
  returns (\<open>None\<close> where it has no defined result).
\<close>

definition tree_after :: "(t_idx \<times> val) list \<Rightarrow> page_tree \<Rightarrow> page_tree option" where
  "tree_after kvs s = map_option snd (insert_all kvs s)"

definition node_keys :: "page_tree \<Rightarrow> t_node \<Rightarrow> t_idx list" where
  "node_keys s n = (case get_page s (ptr n) of None \<Rightarrow> [] | Some pg \<Rightarrow> take (count n) (p_idx pg))"

definition split_halves :: "page_tree \<Rightarrow> (t_idx list \<times> t_idx list) option" where
  "split_halves s =
     (case split_node RootRef True s of
        Some (Inr new_node, s') \<Rightarrow> Some (node_keys s' (tree_root s'), node_keys s' new_node)
      | _ \<Rightarrow> None)"

definition insert_outcome ::
  "t_idx \<Rightarrow> page_tree \<Rightarrow> (handle \<times> nat \<times> t_node \<times> nat \<times> handle option option) option" where
  "insert_outcome k s =
     (case insert_tree k s of
        Some (Inr h, s') \<Rightarrow>
          Some (h, tree_depth s', tree_root s', length (pages (mm_nodes s')),
                map_option fst (find_tree k 0 s'))
      | _ \<Rightarrow> None)"


text \<open>
  The tree the constructor returns when the leaf arena has room for the root page only, and
  the tree after the inserts 0, 1, ... 511 into a new tree whose leaf arena then has room
  for \<open>rm\<close> more pages. \<open>insert_failure k k' s\<close> is what a caller sees of an insert of \<open>k\<close>
  that throws: the exception, the root count before and after, and what \<^verbatim>\<open>find(k', 0)\<close>
  returns before and after.
\<close>

definition tight_tree :: page_tree where
  "tight_tree =
     \<lparr>value_malloc_size = 1,
      mm_nodes = \<lparr>pages = [], room = 8\<rparr>,
      mm_leaves = \<lparr>pages = [blank_leaf 512 1], room = 0\<rparr>,
      max_entry_per_node = 512,
      tree_root = \<lparr>ptr = LeafPage 0, count = 0\<rparr>,
      tree_depth = 0\<rparr>"

definition full_page :: page where
  "full_page = \<lparr>p_idx = map word_of_nat [0..<512], p_sub = [], p_val = replicate 512 0\<rparr>"

definition full_tree :: "nat \<Rightarrow> page_tree" where
  "full_tree rm =
     \<lparr>value_malloc_size = 1,
      mm_nodes = \<lparr>pages = [], room = 8\<rparr>,
      mm_leaves = \<lparr>pages = [full_page], room = rm\<rparr>,
      max_entry_per_node = 512,
      tree_root = \<lparr>ptr = LeafPage 0, count = 512\<rparr>,
      tree_depth = 0\<rparr>"

definition insert_failure ::
  "t_idx \<Rightarrow> t_idx \<Rightarrow> page_tree \<Rightarrow> (error \<times> nat \<times> nat \<times> handle option option \<times> handle option option) option" where
  "insert_failure k k' s =
     (case insert_tree k s of
        Some (Inl e, s') \<Rightarrow>
          Some (e, count (tree_root s), count (tree_root s'),
                map_option fst (find_tree k' 0 s), map_option fst (find_tree k' 0 s'))
      | _ \<Rightarrow> None)"



section \<open>Well-formed trees\<close>

text \<open>
  The entries below a node in storage order, each with the pointer to its value, and the
  invariants of the data model at every level: each page sorted, the entries of a subtree
  sorted, every child non-empty with its smallest index as fence key in the parent, and no
  run of equal indexes torn between two neighbouring children unless the left one holds
  that index only. \<open>fr_post\<close> is what \<^verbatim>\<open>find_rec\<close> owes its caller on the entries \<open>es\<close>
  of a subtree: the value of the occurrence asked for, or no value and the occurrence
  count reduced by the whole subtree when the subtree holds the index only.
\<close>

fun entries :: "page_tree \<Rightarrow> nat \<Rightarrow> t_node \<Rightarrow> (t_idx \<times> handle) list" where
  "entries s 0 n =
     (case get_page s (ptr n) of
        None \<Rightarrow> []
      | Some pg \<Rightarrow> map (\<lambda>i. (p_idx pg ! i, node_to_value (value_malloc_size s) (ptr n) i)) [0..<count n])"
| "entries s (Suc d) n =
     (case get_page s (ptr n) of
        None \<Rightarrow> []
      | Some pg \<Rightarrow> concat (map (\<lambda>i. entries s d (p_sub pg ! i)) [0..<count n]))"

fun wf_tree :: "page_tree \<Rightarrow> nat \<Rightarrow> t_node \<Rightarrow> bool" where
  "wf_tree s 0 n =
     (case get_page s (ptr n) of
        None \<Rightarrow> False
      | Some pg \<Rightarrow>
          count n \<le> length (p_idx pg) \<and> count n \<le> 2147483648 \<and>
          sorted (take (count n) (p_idx pg)))"
| "wf_tree s (Suc d) n =
     (case get_page s (ptr n) of
        None \<Rightarrow> False
      | Some pg \<Rightarrow>
          count n \<le> length (p_idx pg) \<and> count n \<le> length (p_sub pg) \<and>
          count n \<le> 2147483648 \<and>
          sorted (take (count n) (p_idx pg)) \<and>
          (\<forall>i<count n. wf_tree s d (p_sub pg ! i) \<and> entries s d (p_sub pg ! i) \<noteq> [] \<and>
                        fst (hd (entries s d (p_sub pg ! i))) = p_idx pg ! i) \<and>
          sorted (map fst (entries s (Suc d) n)) \<and>
          (\<forall>i. Suc i < count n \<longrightarrow>
                fst (last (entries s d (p_sub pg ! i))) = p_idx pg ! Suc i \<longrightarrow>
                p_idx pg ! i = p_idx pg ! Suc i))"

definition fr_post :: "(t_idx \<times> handle) list \<Rightarrow> t_idx \<Rightarrow> int \<Rightarrow> handle option \<Rightarrow> int \<Rightarrow> bool" where
  "fr_post es idx sub r sub' \<longleftrightarrow>
     (if nat sub < length (filter (\<lambda>e. fst e = idx) es)
      then r = Some (snd (filter (\<lambda>e. fst e = idx) es ! nat sub))
      else r = None \<and> - 1 \<le> sub' \<and> sub' \<le> sub \<and>
           ((\<forall>e\<in>set es. fst e = idx) \<longrightarrow> sub' = sub - int (length es)))"


section \<open>Example states\<close>

text \<open>A tree of depth 0 whose root leaf holds the indexes 3, 5, 5 and 9.\<close>

definition example_leaf :: page_tree where
  "example_leaf =
     \<lparr>value_malloc_size = 1,
      mm_nodes = \<lparr>pages = [], room = 8\<rparr>,
      mm_leaves = \<lparr>pages = [\<lparr>p_idx = [3, 5, 5, 9] @ replicate 508 0, p_sub = [],
                             p_val = [66, 67, 65, 68] @ replicate 508 0\<rparr>], room = 7\<rparr>,
      max_entry_per_node = 512,
      tree_root = \<lparr>ptr = LeafPage 0, count = 4\<rparr>,
      tree_depth = 0\<rparr>"




section \<open>Facts about reads and the binary search\<close>

lemma rd_Some [simp]: "i < length xs \<Longrightarrow> rd xs i = Some (xs ! i)"
  by (simp add: rd_def)

lemma rd_None [simp]: "\<not> i < length xs \<Longrightarrow> rd xs i = None"
  by (simp add: rd_def)

lemma binsearch_backup_spec:
  "mid < length ary \<Longrightarrow> ary ! mid = v \<Longrightarrow>
   \<exists>j. binsearch_backup v ary mid = Some j \<and> j \<le> mid \<and>
       (\<forall>l. j \<le> l \<and> l \<le> mid \<longrightarrow> ary ! l = v) \<and> (j = 0 \<or> ary ! (j - 1) \<noteq> v)"
proof (induction v ary mid rule: binsearch_backup.induct)
  case (1 v ary mid)
  show ?case
  proof (cases "mid = 0")
    case True
    with "1.prems" show ?thesis by (subst binsearch_backup.simps) simp
  next
    case False
    show ?thesis
    proof (cases "ary ! (mid - 1) = v")
      case True
      from False "1.prems" have lt: "mid - 1 < length ary" by simp
      from "1.IH" [OF False _ _ lt True] False lt True
      obtain j where j: "binsearch_backup v ary (mid - 1) = Some j" "j \<le> mid - 1"
        "\<forall>l. j \<le> l \<and> l \<le> mid - 1 \<longrightarrow> ary ! l = v" "j = 0 \<or> ary ! (j - 1) \<noteq> v"
        by auto
      have "\<forall>l. j \<le> l \<and> l \<le> mid \<longrightarrow> ary ! l = v"
      proof (intro allI impI)
        fix l assume "j \<le> l \<and> l \<le> mid"
        then show "ary ! l = v" using j(3) "1.prems"(2) by (cases "l = mid") auto
      qed
      with j False lt True show ?thesis by (subst binsearch_backup.simps) auto
    next
      case neq: False
      from False "1.prems" have lt: "mid - 1 < length ary" by simp
      with neq False "1.prems" show ?thesis
        by (subst binsearch_backup.simps) auto
    qed
  qed
qed

lemma bs_postI_none:
  "\<not> (\<exists>j<cnt. ary ! j = v) \<Longrightarrow> - 1 \<le> r \<Longrightarrow> r < int cnt \<Longrightarrow>
   \<forall>j<cnt. (ary ! j < v) = (int j \<le> r) \<Longrightarrow> bs_post v ary cnt r"
  unfolding bs_post_def by auto

lemma bs_postI_exact:
  "\<exists>j<cnt. ary ! j = v \<Longrightarrow> 0 \<le> r \<Longrightarrow> r < int cnt \<Longrightarrow> ary ! nat r = v \<Longrightarrow>
   \<forall>j<cnt. (ary ! j < v) = (int j < r) \<Longrightarrow> bs_post v ary cnt r"
  unfolding bs_post_def by simp

lemma binsearch_loop_spec:
  assumes mono: "\<forall>i j. i \<le> j \<and> j < cnt \<longrightarrow> ary ! i \<le> ary ! j"
    and cnt: "cnt \<le> length ary" "cnt \<le> 2147483648"
  shows "mn \<le> mx \<Longrightarrow> mx < cnt \<Longrightarrow> (\<forall>j<mn. ary ! j < v) \<Longrightarrow>
         (\<forall>j. mx < j \<and> j < cnt \<longrightarrow> v < ary ! j) \<Longrightarrow>
         \<exists>r. binsearch_loop v ary mn mx = Some r \<and> bs_post v ary cnt r"
proof (induction "mx - mn" arbitrary: mn mx rule: less_induct)
  case less
  have monoD: "\<And>i j. i \<le> j \<Longrightarrow> j < cnt \<Longrightarrow> ary ! i \<le> ary ! j"
    using mono by blast
  define mid where "mid = (mn + mx) div 2"
  have sum: "(mn + mx) mod 4294967296 = mn + mx"
    using less.prems cnt by simp
  have mid: "mn \<le> mid" "mid \<le> mx" "mid < cnt" "mid < length ary"
    using less.prems cnt by (auto simp: mid_def)
  have e: "((mn + mx) mod 4294967296) div 2 = mid"
    by (simp only: sum mid_def)
  have unfold: "binsearch_loop v ary mn mx =
       (if ary ! mid > v then
         (if mid = 0 then Some (- 1)
          else if mid = mn then Some (int (mid - 1))
          else binsearch_loop v ary mn (mid - 1))
       else if ary ! mid = v then map_option int (binsearch_backup v ary mid)
       else (if mid = mx then Some (int mid) else binsearch_loop v ary (mid + 1) mx))"
    by (subst binsearch_loop.simps, simp only: e) (simp add: mid)
  consider (gt) "v < ary ! mid" | (eq) "ary ! mid = v" | (lt) "ary ! mid < v"
    by (cases "ary ! mid" v rule: linorder_cases) auto
  then show ?case
  proof cases
    case gt
    have above: "\<forall>j. mid \<le> j \<and> j < cnt \<longrightarrow> v < ary ! j"
    proof (intro allI impI)
      fix j assume "mid \<le> j \<and> j < cnt"
      then have "ary ! mid \<le> ary ! j" by (intro monoD) simp_all
      with gt show "v < ary ! j" by simp
    qed
    show ?thesis
    proof (cases "mid = 0 \<or> mid = mn")
      case True
      then have below: "\<forall>j<mid. ary ! j < v" using less.prems(3) by auto
      have none: "\<not> (\<exists>j<cnt. ary ! j = v)"
      proof
        assume "\<exists>j<cnt. ary ! j = v"
        then obtain j where j: "j < cnt" "ary ! j = v" by auto
        show False
        proof (cases "j < mid")
          case True
          with below have "ary ! j < v" by simp
          with j show False by simp
        next
          case False
          with above j(1) have "v < ary ! j" by simp
          with j show False by simp
        qed
      qed
      have r: "binsearch_loop v ary mn mx = Some (int mid - 1)"
      proof (cases "mid = 0")
        case True with gt show ?thesis by (simp add: unfold)
      next
        case False
        then have "int (mid - 1) = int mid - 1" by simp
        with False \<open>mid = 0 \<or> mid = mn\<close> gt show ?thesis by (simp add: unfold)
      qed
      have "\<forall>j<cnt. (ary ! j < v) = (int j \<le> int mid - 1)"
      proof (intro allI impI)
        fix j assume "j < cnt"
        show "(ary ! j < v) = (int j \<le> int mid - 1)"
        proof (cases "j < mid")
          case True then show ?thesis using below by auto
        next
          case False
          then have "v < ary ! j" using above \<open>j < cnt\<close> by auto
          then show ?thesis using False by auto
        qed
      qed
      then have "bs_post v ary cnt (int mid - 1)"
        using none mid by (intro bs_postI_none) simp_all
      with r show ?thesis by simp
    next
      case False
      then have "mn \<le> mid - 1" "mid - 1 < cnt" "(mid - 1) - mn < mx - mn"
        using mid by auto
      moreover have "\<forall>j. mid - 1 < j \<and> j < cnt \<longrightarrow> v < ary ! j"
        using above by auto
      ultimately have "\<exists>r. binsearch_loop v ary mn (mid - 1) = Some r \<and> bs_post v ary cnt r"
        using less.prems(3) by (intro less.hyps) simp_all
      then show ?thesis using False gt by (simp add: unfold)
    qed
  next
    case eq
    from binsearch_backup_spec [OF mid(4) eq]
    obtain j where j: "binsearch_backup v ary mid = Some j" "j \<le> mid"
      "\<forall>l. j \<le> l \<and> l \<le> mid \<longrightarrow> ary ! l = v" "j = 0 \<or> ary ! (j - 1) \<noteq> v"
      by blast
    have r: "binsearch_loop v ary mn mx = Some (int j)"
      using eq j(1) by (simp add: unfold)
    have jv: "ary ! j = v" using j by auto
    have ex: "\<exists>j<cnt. ary ! j = v" using eq mid by blast
    have all: "\<forall>l<cnt. (ary ! l < v) = (l < j)"
    proof (intro allI impI)
      fix l assume l: "l < cnt"
      show "(ary ! l < v) = (l < j)"
      proof (cases "l < j")
        case True
        then have "j \<noteq> 0" by auto
        with j(4) have ne: "ary ! (j - 1) \<noteq> v" by auto
        have "ary ! l \<le> ary ! (j - 1)" using True mid j(2) by (intro monoD) simp_all
        moreover have "ary ! (j - 1) \<le> ary ! j" using mid j(2) by (intro monoD) simp_all
        ultimately show ?thesis using True ne jv by auto
      next
        case False
        then have "ary ! j \<le> ary ! l" using l by (intro monoD) simp_all
        then show ?thesis using False jv by auto
      qed
    qed
    have "bs_post v ary cnt (int j)"
      using ex jv mid j(2) all by (intro bs_postI_exact) simp_all
    with r show ?thesis by simp
  next
    case lt
    then have nlt: "\<not> v < ary ! mid" "ary ! mid \<noteq> v" by auto
    have below: "\<forall>j. j \<le> mid \<longrightarrow> ary ! j < v"
    proof (intro allI impI)
      fix j assume "j \<le> mid"
      then have "ary ! j \<le> ary ! mid" using mid by (intro monoD) simp_all
      with lt show "ary ! j < v" by simp
    qed
    show ?thesis
    proof (cases "mid = mx")
      case True
      have none: "\<not> (\<exists>j<cnt. ary ! j = v)"
      proof
        assume "\<exists>j<cnt. ary ! j = v"
        then obtain j where j: "j < cnt" "ary ! j = v" by auto
        show False
        proof (cases "j \<le> mid")
          case True
          with below have "ary ! j < v" by simp
          with j show False by simp
        next
          case False
          with less.prems(4) \<open>mid = mx\<close> j(1) have "v < ary ! j" by simp
          with j show False by simp
        qed
      qed
      have r: "binsearch_loop v ary mn mx = Some (int mid)"
        using True nlt by (simp add: unfold)
      have "\<forall>j<cnt. (ary ! j < v) = (int j \<le> int mid)"
      proof (intro allI impI)
        fix j assume "j < cnt"
        show "(ary ! j < v) = (int j \<le> int mid)"
        proof (cases "j \<le> mid")
          case True then show ?thesis using below by auto
        next
          case False
          then have "v < ary ! j" using less.prems(4) True \<open>j < cnt\<close> by auto
          then show ?thesis using False by auto
        qed
      qed
      then have "bs_post v ary cnt (int mid)"
        using none mid by (intro bs_postI_none) simp_all
      with r show ?thesis by simp
    next
      case False
      then have "mid + 1 \<le> mx" "mx - (mid + 1) < mx - mn"
        using mid by auto
      moreover have "\<forall>j<mid + 1. ary ! j < v"
        using below by auto
      ultimately have "\<exists>r. binsearch_loop v ary (mid + 1) mx = Some r \<and> bs_post v ary cnt r"
        using less.prems(2,4) by (intro less.hyps) simp_all
      then show ?thesis using False nlt by (simp add: unfold)
    qed
  qed
qed


lemma binsearch_index_spec:
  assumes "sorted (take cnt ary)" "cnt \<le> length ary" "cnt \<le> 2147483648"
  shows "\<exists>r. binsearch_index v ary cnt = Some r \<and> bs_post v ary cnt r"
proof (cases "cnt = 0")
  case True
  then show ?thesis by (simp add: binsearch_index_def bs_post_def)
next
  case False
  have mono: "\<forall>i j. i \<le> j \<and> j < cnt \<longrightarrow> ary ! i \<le> ary ! j"
  proof (intro allI impI)
    fix i j assume ij: "i \<le> j \<and> j < cnt"
    then have "take cnt ary ! i \<le> take cnt ary ! j"
      using assms(1,2) by (intro sorted_nth_mono) simp_all
    with ij show "ary ! i \<le> ary ! j" by simp
  qed
  have "\<exists>r. binsearch_loop v ary 0 (cnt - 1) = Some r \<and> bs_post v ary cnt r"
    using False by (intro binsearch_loop_spec [OF mono assms(2,3)]) auto
  with False show ?thesis by (simp add: binsearch_index_def)
qed


subsection \<open>Positions in a sorted array\<close>

lemma sorted_filter_lt_nth:
  "sorted ks \<Longrightarrow> j < length ks \<Longrightarrow>
   (ks ! j < (v::'a::linorder)) = (j < length (filter (\<lambda>x. x < v) ks))"
proof (induction ks arbitrary: j)
  case Nil
  then show ?case by simp
next
  case (Cons x xs)
  show ?case
  proof (cases "x < v")
    case True
    with Cons show ?thesis by (cases j) auto
  next
    case False
    with Cons.prems have all: "\<forall>y\<in>set (x # xs). \<not> y < v" by auto
    have mem: "(x # xs) ! j \<in> set (x # xs)"
      using Cons.prems(2) by (intro nth_mem)
    from all have "filter (\<lambda>x. x < v) (x # xs) = []" by auto
    moreover from all mem have "\<not> (x # xs) ! j < v" by blast
    ultimately show ?thesis by simp
  qed
qed

lemma sorted_filter_le_nth:
  "sorted ks \<Longrightarrow> j < length ks \<Longrightarrow>
   (ks ! j \<le> (v::'a::linorder)) = (j < length (filter (\<lambda>x. x \<le> v) ks))"
proof (induction ks arbitrary: j)
  case Nil
  then show ?case by simp
next
  case (Cons x xs)
  show ?case
  proof (cases "x \<le> v")
    case True
    with Cons show ?thesis by (cases j) auto
  next
    case False
    with Cons.prems have all: "\<forall>y\<in>set (x # xs). \<not> y \<le> v" by auto
    have mem: "(x # xs) ! j \<in> set (x # xs)"
      using Cons.prems(2) by (intro nth_mem)
    from all have "filter (\<lambda>x. x \<le> v) (x # xs) = []" by auto
    moreover from all mem have "\<not> (x # xs) ! j \<le> v" by blast
    ultimately show ?thesis by simp
  qed
qed

lemma filter_le_split:
  "length (filter (\<lambda>x. x \<le> (v::'a::linorder)) ks) =
   length (filter (\<lambda>x. x < v) ks) + length (filter (\<lambda>x. x = v) ks)"
  by (induction ks) auto

lemma sorted_nth_eq_iff:
  assumes "sorted ks" "j < length ks"
  shows "(ks ! j = (v::'a::linorder)) =
         (length (filter (\<lambda>x. x < v) ks) \<le> j \<and>
          j < length (filter (\<lambda>x. x < v) ks) + length (filter (\<lambda>x. x = v) ks))"
proof -
  have "(ks ! j = v) = (ks ! j \<le> v \<and> \<not> ks ! j < v)" by auto
  also have "\<dots> = (j < length (filter (\<lambda>x. x \<le> v) ks) \<and> \<not> j < length (filter (\<lambda>x. x < v) ks))"
    by (simp only: sorted_filter_lt_nth [OF assms, of v] sorted_filter_le_nth [OF assms, of v])
  also have "\<dots> = (length (filter (\<lambda>x. x < v) ks) \<le> j \<and>
          j < length (filter (\<lambda>x. x < v) ks) + length (filter (\<lambda>x. x = v) ks))"
    by (simp only: filter_le_split) linarith
  finally show ?thesis .
qed

lemma filter_lt_length_le: "length (filter P ks) \<le> length ks"
  by simp


lemma nth_take_prefix: "j < cnt \<Longrightarrow> cnt \<le> length ary \<Longrightarrow> take cnt ary ! j = ary ! j"
  by simp

lemma binsearch_index_filter:
  assumes srt: "sorted (take cnt ary)" and len: "cnt \<le> length ary" "cnt \<le> 2147483648"
  shows "binsearch_index v ary cnt =
         Some (if v \<in> set (take cnt ary)
               then int (length (filter (\<lambda>x. x < v) (take cnt ary)))
               else int (length (filter (\<lambda>x. x < v) (take cnt ary))) - 1)"
proof -
  define lt where "lt = length (filter (\<lambda>x. x < v) (take cnt ary))"
  from binsearch_index_spec [OF assms]
  obtain r where r: "binsearch_index v ary cnt = Some r" "bs_post v ary cnt r" by blast
  have ltc: "lt \<le> cnt"
    unfolding lt_def using length_filter_le [of "\<lambda>x. x < v" "take cnt ary"] len by simp
  have pos: "(ary ! j < v) = (j < lt)" if "j < cnt" for j
    using sorted_filter_lt_nth [OF srt, of j v] that len by (simp add: lt_def)
  have mem: "v \<in> set (take cnt ary) \<longleftrightarrow> (\<exists>j<cnt. ary ! j = v)"
    using len by (auto simp: in_set_conv_nth)
  have rb: "- 1 \<le> r" "r < int cnt" using r(2) by (simp_all add: bs_post_def)
  show ?thesis
  proof (cases "v \<in> set (take cnt ary)")
    case True
    with mem r(2) have p: "0 \<le> r" "\<forall>j<cnt. (ary ! j < v) = (int j < r)"
      unfolding bs_post_def by simp_all
    have "r = int lt"
    proof (rule ccontr)
      assume ne: "r \<noteq> int lt"
      show False
      proof (cases "r < int lt")
        case True
        with p(1) ltc have "nat r < cnt" "nat r < lt" by simp_all
        with pos [of "nat r"] p(2) p(1) show False by simp
      next
        case False
        with ne rb have "lt < cnt" "int lt < r" by simp_all
        with pos [of lt] p(2) show False by simp
      qed
    qed
    with r(1) True show ?thesis by (simp add: lt_def)
  next
    case False
    with mem r(2) have p: "\<forall>j<cnt. (ary ! j < v) = (int j \<le> r)"
      unfolding bs_post_def by simp
    have "r = int lt - 1"
    proof (rule ccontr)
      assume ne: "r \<noteq> int lt - 1"
      show False
      proof (cases "r < int lt - 1")
        case True
        with rb ltc have "nat (r + 1) < cnt" "nat (r + 1) < lt" by simp_all
        with pos [of "nat (r + 1)"] p rb show False by simp
      next
        case False
        with ne rb have "lt < cnt" "int lt \<le> r" by simp_all
        with pos [of lt] p show False by simp
      qed
    qed
    with r(1) False show ?thesis by (simp add: lt_def)
  qed
qed


section \<open>Facts about the lookup\<close>

lemma find_rec_state:
  "find_rec idx sub p cnt depth s = Some res \<Longrightarrow> snd (snd res) = s"
  "find_run idx sub p cnt d i s = Some res \<Longrightarrow> snd (snd res) = s"
proof (induction idx sub p cnt depth s and idx sub p cnt d i s arbitrary: res and res
       rule: find_rec_find_run.induct)
  case (1 idx sub_idx p cnt depth s)
  from "1.prems" show ?case
    apply (subst (asm) find_rec.simps)
    apply (auto split: if_splits Option.bind_splits dest: "1.IH")
    done
next
  case (2 idx sub_idx p cnt d i s)
  show ?case
  proof (cases "i < cnt")
    case False
    with "2.prems" show ?thesis by (subst (asm) find_run.simps) auto
  next
    case lt: True
    from "2.prems" lt obtain pg k where pg: "get_page s p = Some pg" "rd (p_idx pg) i = Some k"
      by (subst (asm) find_run.simps) (auto split: Option.bind_splits)
    show ?thesis
    proof (cases "k = idx")
      case False
      with "2.prems" lt pg show ?thesis by (subst (asm) find_run.simps) auto
    next
      case eq: True
      from "2.prems" lt pg eq obtain n r where
        n: "rd (p_sub pg) i = Some n" "find_rec idx sub_idx (ptr n) (count n) d s = Some r"
        by (subst (asm) find_run.simps) (auto split: Option.bind_splits)
      from "2.IH"(1) [OF lt pg eq n] have rs: "snd (snd r) = s" .
      show ?thesis
      proof (cases "fst r \<noteq> None \<or> fst (snd r) < 0")
        case True
        with "2.prems" lt pg eq n rs show ?thesis
          by (subst (asm) find_run.simps) (auto split: if_splits)
      next
        case False
        with "2.prems" lt pg eq n have
          "find_run idx (fst (snd r)) p cnt d (i + 1) (snd (snd r)) = Some res"
          by (subst (asm) find_run.simps) (auto split: if_splits)
        from "2.IH"(2) [OF lt pg eq n _ _ this] False rs show ?thesis by simp
      qed
    qed
  qed
qed


lemma example_leaf_find: "find_tree 5 1 example_leaf = Some (Some (LeafPage 0, 2), example_leaf)"
  by (simp add: find_tree_def example_leaf_def find_rec.simps get_page_def binsearch_index_def
      binsearch_loop.simps binsearch_backup.simps u32_def node_to_value_def value_off_def)


lemma filter_range_upt: "b \<le> n \<Longrightarrow> filter (\<lambda>i. a \<le> i \<and> i < b) [0..<n] = [a..<b]"
proof (induction n arbitrary: b)
  case 0
  then show ?case by simp
next
  case (Suc n)
  show ?case
  proof (cases "b \<le> n")
    case True
    with Suc.IH [OF True] show ?thesis by simp
  next
    case False
    with Suc.prems have b: "b = Suc n" by simp
    have "filter (\<lambda>i. a \<le> i \<and> i < Suc n) [0..<n] = filter (\<lambda>i. a \<le> i \<and> i < n) [0..<n]"
      by (rule filter_cong) auto
    also have "\<dots> = [a..<n]" by (rule Suc.IH) simp
    finally show ?thesis using b by (cases "a \<le> n") auto
  qed
qed

lemma filter_eq_upt:
  assumes "sorted ks"
  shows "filter (\<lambda>i. ks ! i = (v::'a::linorder)) [0..<length ks] =
         [length (filter (\<lambda>x. x < v) ks)..<length (filter (\<lambda>x. x < v) ks) + length (filter (\<lambda>x. x = v) ks)]"
proof -
  have le: "length (filter (\<lambda>x. x < v) ks) + length (filter (\<lambda>x. x = v) ks) \<le> length ks"
    using length_filter_le [of "\<lambda>x. x \<le> v" ks] by (simp add: filter_le_split)
  have "filter (\<lambda>i. ks ! i = v) [0..<length ks] =
        filter (\<lambda>i. length (filter (\<lambda>x. x < v) ks) \<le> i \<and>
                   i < length (filter (\<lambda>x. x < v) ks) + length (filter (\<lambda>x. x = v) ks)) [0..<length ks]"
    by (rule filter_cong) (simp_all add: sorted_nth_eq_iff [OF assms])
  with filter_range_upt [OF le] show ?thesis by simp
qed

text \<open>The entries of a sorted leaf with a given index are one run of slots.\<close>

lemma leaf_matches:
  assumes srt: "sorted (take cnt ary)" and len: "cnt \<le> length ary"
  shows "filter (\<lambda>e. fst e = idx) (map (\<lambda>i. (ary ! i, f i)) [0..<cnt]) =
         map (\<lambda>i. (idx, f i))
           [ins_pos idx (take cnt ary)..<ins_pos idx (take cnt ary) + length (filter (\<lambda>x. x = idx) (take cnt ary))]"
proof -
  have l: "length (take cnt ary) = cnt" using len by simp
  have "filter (\<lambda>e. fst e = idx) (map (\<lambda>i. (ary ! i, f i)) [0..<cnt]) =
        map (\<lambda>i. (ary ! i, f i)) (filter (\<lambda>i. ary ! i = idx) [0..<cnt])"
    by (simp add: filter_map o_def)
  also have "filter (\<lambda>i. ary ! i = idx) [0..<cnt] = filter (\<lambda>i. take cnt ary ! i = idx) [0..<cnt]"
    by (rule filter_cong) simp_all
  also have "\<dots> = [ins_pos idx (take cnt ary)..<ins_pos idx (take cnt ary) + length (filter (\<lambda>x. x = idx) (take cnt ary))]"
    using filter_eq_upt [OF srt, of idx] unfolding l ins_pos_def .
  finally have e: "filter (\<lambda>e. fst e = idx) (map (\<lambda>i. (ary ! i, f i)) [0..<cnt]) =
    map (\<lambda>i. (ary ! i, f i)) [ins_pos idx (take cnt ary)..<ins_pos idx (take cnt ary) + length (filter (\<lambda>x. x = idx) (take cnt ary))]" .
  have "set (map fst (filter (\<lambda>e. fst e = idx) (map (\<lambda>i. (ary ! i, f i)) [0..<cnt]))) \<subseteq> {idx}"
    by auto
  then have "\<forall>i\<in>set [ins_pos idx (take cnt ary)..<ins_pos idx (take cnt ary) + length (filter (\<lambda>x. x = idx) (take cnt ary))]. ary ! i = idx"
    unfolding e by (auto simp: image_subset_iff)
  then show ?thesis unfolding e by (intro map_cong) auto
qed


lemma u32_nat: "0 \<le> x \<Longrightarrow> x < 4294967296 \<Longrightarrow> u32 x = nat x"
  by (simp add: u32_def)

lemma i32_id: "0 \<le> x \<Longrightarrow> x < 2147483648 \<Longrightarrow> i32 x = x"
  by (simp add: i32_def)

lemma map_nth_take: "cnt \<le> length ary \<Longrightarrow> map (\<lambda>i. ary ! i) [0..<cnt] = take cnt ary"
proof -
  assume a: "cnt \<le> length ary"
  have "map (\<lambda>i. take cnt ary ! i) [0..<length (take cnt ary)] = take cnt ary" by (rule map_nth)
  moreover have "map (\<lambda>i. take cnt ary ! i) [0..<cnt] = map (\<lambda>i. ary ! i) [0..<cnt]"
    by (rule map_cong) simp_all
  ultimately show ?thesis using a by simp
qed

lemma find_rec_leaf:
  assumes wf: "wf_tree s 0 n" and sub: "0 \<le> sub" "sub < 2147483648"
  shows "\<exists>r sub'. find_rec idx sub (ptr n) (count n) 0 s = Some (r, sub', s) \<and>
                   fr_post (entries s 0 n) idx sub r sub'"
proof -
  from wf obtain pg where pg: "get_page s (ptr n) = Some pg"
    and len: "count n \<le> length (p_idx pg)" and c31: "count n \<le> 2147483648"
    and srt: "sorted (take (count n) (p_idx pg))"
    by (auto split: option.splits)
  define cnt where "cnt = count n"
  define ks where "ks = take cnt (p_idx pg)"
  define lt where "lt = ins_pos idx ks"
  define eq where "eq = length (filter (\<lambda>x. x = idx) ks)"
  define es where "es = entries s 0 n"
  define ms where "ms = filter (\<lambda>e. fst e = idx) es"
  note len = len [folded cnt_def] and c31 = c31 [folded cnt_def]
    and srt = srt [folded cnt_def, folded ks_def]
  have lks: "length ks = cnt" using len by (simp add: ks_def)
  have es: "es = map (\<lambda>i. (p_idx pg ! i, node_to_value (value_malloc_size s) (ptr n) i)) [0..<cnt]"
    by (simp add: es_def pg cnt_def)
  have keys: "map fst es = ks"
    unfolding es ks_def using map_nth_take [OF len] by (simp add: o_def)
  have ms: "ms = map (\<lambda>i. (idx, node_to_value (value_malloc_size s) (ptr n) i)) [lt..<lt + eq]"
    unfolding ms_def es lt_def eq_def ks_def
    using leaf_matches [OF srt [unfolded ks_def] len] .
  have lms: "length ms = eq" by (simp add: ms)
  have sum: "lt + eq \<le> cnt"
    using length_filter_le [of "\<lambda>x. x \<le> idx" ks]
    by (simp add: filter_le_split lt_def eq_def ins_pos_def lks)
  have iff: "(p_idx pg ! j = idx) = (lt \<le> j \<and> j < lt + eq)" if "j < cnt" for j
  proof -
    from that have "j < length ks" "ks ! j = p_idx pg ! j" by (simp_all add: lks) (simp add: ks_def)
    with sorted_nth_eq_iff [OF srt, of j idx] show ?thesis
      by (simp add: lt_def eq_def ins_pos_def)
  qed
  have bs: "binsearch_index idx (p_idx pg) cnt =
            Some (if idx \<in> set ks then int lt else int lt - 1)"
    unfolding lt_def ins_pos_def ks_def
    by (rule binsearch_index_filter [OF srt [unfolded ks_def] len c31])
  have allidx: "lt = 0 \<and> eq = cnt" if "\<forall>e\<in>set es. fst e = idx"
  proof -
    from that have "\<forall>x\<in>set (map fst es). x = idx" by simp
    then have a: "\<forall>x\<in>set ks. x = idx" by (simp only: keys)
    then have "filter (\<lambda>x. x < idx) ks = []" by (auto simp: filter_empty_conv)
    moreover from a have "filter (\<lambda>x. x = idx) ks = ks" by (auto simp: filter_id_conv)
    ultimately show ?thesis by (simp add: lt_def eq_def ins_pos_def lks)
  qed
  have les: "length es = cnt" by (simp add: es)
  show ?thesis
  proof (cases "idx \<in> set ks")
    case False
    then have "filter (\<lambda>x. x = idx) ks = []" by (auto simp: filter_empty_conv)
    then have eq0: "eq = 0" by (simp add: eq_def)
    have post: "fr_post es idx sub None sub"
    proof -
      have "sub = sub - int (length es)" if "\<forall>e\<in>set es. fst e = idx"
        using allidx [OF that] eq0 les by simp
      then show ?thesis
        unfolding fr_post_def ms_def [symmetric] using sub by (auto simp: lms eq0)
    qed
    have "find_rec idx sub (ptr n) cnt 0 s = Some (None, sub, s)"
    proof (cases "lt = 0")
      case True
      with False show ?thesis by (subst find_rec.simps) (simp add: pg bs)
    next
      case nz: False
      with sum have l: "lt - 1 < cnt" by simp
      with iff [of "lt - 1"] nz have "p_idx pg ! (lt - 1) \<noteq> idx" by simp
      moreover from l len have "lt - 1 < length (p_idx pg)" by simp
      moreover from nz have "nat (int lt - 1) = lt - 1" by simp
      ultimately show ?thesis
        using False nz by (subst find_rec.simps) (simp add: pg bs)
    qed
    with post show ?thesis by (simp add: es_def cnt_def)
  next
    case True
    then obtain j where j: "j < cnt" "p_idx pg ! j = idx"
      by (auto simp: ks_def in_set_conv_nth)
    with iff [of j] have eqpos: "0 < eq" "lt < cnt" using sum by simp_all
    with iff [of lt] have klt: "p_idx pg ! lt = idx" by simp
    have ltl: "lt < length (p_idx pg)" using eqpos len by simp
    have us: "u32 sub = nat sub" using sub by (simp add: u32_nat)
    have uc: "u32 (int cnt - int lt) = cnt - lt"
      using eqpos c31 by (simp add: u32_nat)
    show ?thesis
    proof (cases "nat sub < cnt - lt")
      case inside: True
      then have pos: "lt + nat sub < cnt" by simp
      with len have pl: "lt + nat sub < length (p_idx pg)" by simp
      have n1: "nat (int lt + sub) = lt + nat sub" using sub by simp
      have n2: "\<not> int lt + sub < 0" using sub by simp
      show ?thesis
      proof (cases "nat sub < eq")
        case found: True
        with iff [OF pos] have "p_idx pg ! (lt + nat sub) = idx" by simp
        then have "find_rec idx sub (ptr n) cnt 0 s =
                   Some (Some (node_to_value (value_malloc_size s) (ptr n) (lt + nat sub)), sub, s)"
          using True inside
          by (subst find_rec.simps) (simp add: pg bs ltl klt us uc n1 n2 pl)
        moreover have "fr_post es idx sub (Some (node_to_value (value_malloc_size s) (ptr n) (lt + nat sub))) sub"
          unfolding fr_post_def ms_def [symmetric] using found by (simp add: lms) (simp add: ms)
        ultimately show ?thesis by (auto simp: es_def cnt_def)
      next
        case nf: False
        with iff [OF pos] have "p_idx pg ! (lt + nat sub) \<noteq> idx" by simp
        then have "find_rec idx sub (ptr n) cnt 0 s = Some (None, - 1, s)"
          using True inside
          by (subst find_rec.simps) (simp add: pg bs ltl klt us uc n1 n2 pl)
        moreover have "fr_post es idx sub None (- 1)"
        proof -
          have "\<not> (\<forall>e\<in>set es. fst e = idx)"
          proof
            assume "\<forall>e\<in>set es. fst e = idx"
            from allidx [OF this] inside nf show False by simp
          qed
          then show ?thesis
            unfolding fr_post_def ms_def [symmetric] using nf sub by (auto simp: lms)
        qed
        ultimately show ?thesis by (auto simp: es_def cnt_def)
      qed
    next
      case outside: False
      define sub' where "sub' = sub - (int cnt - int lt)"
      have sr: "0 \<le> sub'" "sub' < 2147483648" "sub' \<le> sub"
        using outside sub eqpos by (simp_all add: sub'_def)
      have "find_rec idx sub (ptr n) cnt 0 s = Some (None, sub', s)"
        using True outside sr
        by (subst find_rec.simps) (simp add: pg bs ltl klt us uc i32_id sub'_def [symmetric])
      moreover have "fr_post es idx sub None sub'"
      proof -
        have "sub' = sub - int (length es)" if "\<forall>e\<in>set es. fst e = idx"
          using allidx [OF that] les by (simp add: sub'_def)
        moreover have "\<not> nat sub < eq" using outside sum by simp
        ultimately show ?thesis
          unfolding fr_post_def ms_def [symmetric] using sr by (auto simp: lms)
      qed
      ultimately show ?thesis by (auto simp: es_def cnt_def)
    qed
  qed
qed


subsection \<open>The lookup on a well-formed tree\<close>

lemma fr_post_found_append:
  "fr_post A idx sub r sub1 \<Longrightarrow> nat sub < length (filter (\<lambda>e. fst e = idx) A) \<Longrightarrow>
   fr_post (A @ B) idx sub r sub2"
  by (simp add: fr_post_def nth_append)

lemma fr_post_skip_all:
  assumes "\<forall>e\<in>set A. fst e = idx" "int (length A) \<le> sub"
    and "fr_post B idx (sub - int (length A)) r sub2"
  shows "fr_post (A @ B) idx sub r sub2"
proof -
  have f: "filter (\<lambda>e. fst e = idx) A = A" using assms(1) by (simp add: filter_id_conv)
  have n: "nat (sub - int (length A)) = nat sub - length A" using assms(2) by simp
  have l: "length A \<le> nat sub" using assms(2) by simp
  show ?thesis
  proof (cases "nat sub - length A < length (filter (\<lambda>e. fst e = idx) B)")
    case True
    with assms(3) have "r = Some (snd (filter (\<lambda>e. fst e = idx) B ! (nat sub - length A)))"
      by (simp add: fr_post_def n)
    with True l show ?thesis by (simp add: fr_post_def f nth_append)
  next
    case False
    with assms(3) have p: "r = None" "- 1 \<le> sub2" "sub2 \<le> sub - int (length A)"
      "(\<forall>e\<in>set B. fst e = idx) \<longrightarrow> sub2 = sub - int (length A) - int (length B)"
      by (simp_all add: fr_post_def n)
    with False l show ?thesis by (auto simp: fr_post_def f)
  qed
qed

lemma fr_post_nomatch_tail:
  assumes "filter (\<lambda>e. fst e = idx) B = []" "\<not> nat sub < length (filter (\<lambda>e. fst e = idx) A)"
    and "\<not> (\<forall>e\<in>set A. fst e = idx)" "- 1 \<le> sub2" "sub2 \<le> sub"
  shows "fr_post (A @ B) idx sub None sub2"
  using assms by (auto simp: fr_post_def)

lemma fr_post_nomatch:
  assumes "filter (\<lambda>e. fst e = idx) es = []" "es \<noteq> []" "- 1 \<le> sub2" "sub2 \<le> sub"
  shows "fr_post es idx sub None sub2"
proof -
  have "\<not> (\<forall>e\<in>set es. fst e = idx)"
  proof
    assume "\<forall>e\<in>set es. fst e = idx"
    then have "filter (\<lambda>e. fst e = idx) es = es" by (simp add: filter_id_conv)
    with assms(1,2) show False by simp
  qed
  with assms show ?thesis by (auto simp: fr_post_def)
qed

lemma fr_post_Nil: "- 1 \<le> sub \<Longrightarrow> fr_post [] idx sub None sub"
  by (simp add: fr_post_def)

lemma fr_post_None_bounds:
  "fr_post es idx sub None sub' \<Longrightarrow>
   \<not> nat sub < length (filter (\<lambda>e. fst e = idx) es) \<and> - 1 \<le> sub' \<and> sub' \<le> sub \<and>
   ((\<forall>e\<in>set es. fst e = idx) \<longrightarrow> sub' = sub - int (length es))"
  by (auto simp: fr_post_def split: if_splits)

lemma fr_post_Some:
  "fr_post es idx sub (Some h) sub' \<Longrightarrow> nat sub < length (filter (\<lambda>e. fst e = idx) es)"
  by (auto simp: fr_post_def split: if_splits)

lemma concat_upt_split:
  "i \<le> cnt \<Longrightarrow> concat (map E [0..<cnt]) = concat (map E [0..<i]) @ concat (map E [i..<cnt])"
proof -
  assume "i \<le> cnt"
  then have "[0..<cnt] = [0..<i] @ [i..<cnt]"
    using upt_add_eq_append [of 0 i "cnt - i"] by simp
  then show ?thesis by simp
qed

lemma concat_upt_Cons:
  "i < cnt \<Longrightarrow> concat (map E [i..<cnt]) = E i @ concat (map E [Suc i..<cnt])"
  by (simp add: upt_conv_Cons)

lemma sorted_concat_cross:
  assumes srt: "sorted (map fst (concat (map E [0..<cnt])))"
    and j: "j < j'" "j' < cnt" and e: "e \<in> set (E j)" "e' \<in> set (E j')"
  shows "fst e \<le> (fst e' :: 'a::linorder)"
proof -
  have "concat (map E [0..<cnt]) = concat (map E [0..<j']) @ concat (map E [j'..<cnt])"
    using j by (intro concat_upt_split) simp
  with srt have "\<forall>x\<in>set (concat (map E [0..<j'])). \<forall>y\<in>set (concat (map E [j'..<cnt])). fst x \<le> fst y"
    by (simp add: sorted_append)
  moreover have "e \<in> set (concat (map E [0..<j']))" using j e by auto
  moreover have "e' \<in> set (concat (map E [j'..<cnt]))" using j e by auto
  ultimately show ?thesis by blast
qed

lemma sorted_concat_part:
  assumes srt: "sorted (map fst (concat (map E [0..<cnt])))" and j: "j < cnt"
  shows "sorted (map fst (E j))"
proof -
  have "concat (map E [0..<cnt]) = concat (map E [0..<j]) @ concat (map E [j..<cnt])"
    using j by (intro concat_upt_split) simp
  also have "concat (map E [j..<cnt]) = E j @ concat (map E [Suc j..<cnt])"
    using j by (rule concat_upt_Cons)
  finally show ?thesis using srt by (simp add: sorted_append)
qed

lemma sorted_hd_min: "sorted xs \<Longrightarrow> x \<in> set xs \<Longrightarrow> hd xs \<le> (x::'a::linorder)"
  by (cases xs) auto

lemma sorted_last_max: "sorted xs \<Longrightarrow> x \<in> set xs \<Longrightarrow> (x::'a::linorder) \<le> last xs"
  by (induction xs) (auto split: if_splits)


lemma fence_le_entry:
  fixes E :: "nat \<Rightarrow> ('a::linorder \<times> 'b) list"
  assumes srt: "sorted (map fst (concat (map E [0..<cnt])))"
    and hdE: "\<And>j. j < cnt \<Longrightarrow> E j \<noteq> [] \<and> fst (hd (E j)) = fk j"
    and j: "j < cnt" "e \<in> set (E j)"
  shows "fk j \<le> fst e"
proof -
  have "sorted (map fst (E j))" using srt j(1) by (rule sorted_concat_part)
  moreover have "fst e \<in> set (map fst (E j))" using j(2) by simp
  ultimately have "hd (map fst (E j)) \<le> fst e" by (rule sorted_hd_min)
  with hdE [OF j(1)] show ?thesis by (simp add: hd_map)
qed

lemma entry_le_fence:
  fixes E :: "nat \<Rightarrow> ('a::linorder \<times> 'b) list"
  assumes srt: "sorted (map fst (concat (map E [0..<cnt])))"
    and hdE: "\<And>j. j < cnt \<Longrightarrow> E j \<noteq> [] \<and> fst (hd (E j)) = fk j"
    and j: "j < j'" "j' < cnt" "e \<in> set (E j)"
  shows "fst e \<le> fk j'"
proof -
  from hdE [OF j(2)] have "hd (E j') \<in> set (E j')" "fst (hd (E j')) = fk j'"
    by simp_all
  with sorted_concat_cross [OF srt j, of "hd (E j')"] show ?thesis by simp
qed

lemma concat_no_match:
  fixes E :: "nat \<Rightarrow> ('a::linorder \<times> 'b) list"
  assumes srt: "sorted (map fst (concat (map E [0..<cnt])))"
    and hdE: "\<And>j. j < cnt \<Longrightarrow> E j \<noteq> [] \<and> fst (hd (E j)) = fk j"
    and gt: "\<forall>j. i' \<le> j \<and> j < cnt \<longrightarrow> idx < fk j"
  shows "filter (\<lambda>e. fst e = idx) (concat (map E [i'..<cnt])) = []"
proof -
  have "fst e \<noteq> idx" if e: "e \<in> set (concat (map E [i'..<cnt]))" for e
  proof -
    from e obtain j where j: "i' \<le> j" "j < cnt" "e \<in> set (E j)" by auto
    from fence_le_entry [OF srt hdE j(2,3)] gt j(1,2) show ?thesis by auto
  qed
  then show ?thesis by (auto simp: filter_empty_conv)
qed

lemma fr_post_prefix_no_match:
  assumes "filter (\<lambda>e. fst e = idx) A = []" "fr_post B idx sub r sub'"
  shows "fr_post (A @ B) idx sub r sub'"
proof -
  have "A = []" if "\<forall>e\<in>set (A @ B). fst e = idx"
  proof -
    from that have "filter (\<lambda>e. fst e = idx) A = A" by (simp add: filter_id_conv)
    with assms(1) show ?thesis by simp
  qed
  with assms show ?thesis by (auto simp: fr_post_def)
qed

lemma fr_post_suffix_no_match:
  assumes "filter (\<lambda>e. fst e = idx) C = []" "fr_post B idx sub r sub'"
  shows "fr_post (B @ C) idx sub r sub'"
proof -
  have "C = []" if "\<forall>e\<in>set (B @ C). fst e = idx"
  proof -
    from that have "filter (\<lambda>e. fst e = idx) C = C" by (simp add: filter_id_conv)
    with assms(1) show ?thesis by simp
  qed
  with assms show ?thesis by (auto simp: fr_post_def)
qed

text \<open>
  The loop over the children with an equal fence key, given what the search owes on each
  child: \<open>E j\<close> stands for the entries below child \<open>j\<close>.
\<close>

lemma find_run_spec:
  fixes E :: "nat \<Rightarrow> (t_idx \<times> handle) list"
  assumes pg: "get_page s p = Some pg"
    and len: "cnt \<le> length (p_idx pg)" "cnt \<le> length (p_sub pg)"
    and child: "\<And>j sub. j < cnt \<Longrightarrow> 0 \<le> sub \<Longrightarrow> sub < 2147483648 \<Longrightarrow>
        \<exists>r sub'. find_rec idx sub (ptr (p_sub pg ! j)) (count (p_sub pg ! j)) d s = Some (r, sub', s) \<and>
                 fr_post (E j) idx sub r sub'"
    and hdE: "\<And>j. j < cnt \<Longrightarrow> E j \<noteq> [] \<and> fst (hd (E j)) = p_idx pg ! j"
    and srt: "sorted (map fst (concat (map E [0..<cnt])))"
  shows "i \<le> cnt \<Longrightarrow> (i < cnt \<longrightarrow> idx \<le> p_idx pg ! i) \<Longrightarrow> 0 \<le> sub \<Longrightarrow> sub < 2147483648 \<Longrightarrow>
         \<exists>r sub'. find_run idx sub p cnt d i s = Some (r, sub', s) \<and>
                  fr_post (concat (map E [i..<cnt])) idx sub r sub'"
proof (induction "cnt - i" arbitrary: i sub rule: less_induct)
  case less
  have F1: "p_idx pg ! j \<le> fst e" if "j < cnt" "e \<in> set (E j)" for j e
    using srt hdE that by (rule fence_le_entry)
  have F2: "fst e \<le> p_idx pg ! j'" if "j < j'" "j' < cnt" "e \<in> set (E j)" for j j' e
    using srt hdE that by (rule entry_le_fence)
  have nomatch: "filter (\<lambda>e. fst e = idx) (concat (map E [i'..<cnt])) = []"
    if "\<forall>j. i' \<le> j \<and> j < cnt \<longrightarrow> idx < p_idx pg ! j" for i'
    using srt hdE that by (rule concat_no_match)
  show ?case
  proof (cases "i < cnt")
    case False
    with less.prems have "i = cnt" by simp
    then have "find_run idx sub p cnt d i s = Some (None, sub, s)"
      by (subst find_run.simps) simp
    moreover have "fr_post (concat (map E [i..<cnt])) idx sub None sub"
      using \<open>i = cnt\<close> less.prems(3) by (simp add: fr_post_Nil)
    ultimately show ?thesis by blast
  next
    case lt: True
    from lt len have rk: "rd (p_idx pg) i = Some (p_idx pg ! i)"
      and rn: "rd (p_sub pg) i = Some (p_sub pg ! i)" by simp_all
    have cc: "concat (map E [i..<cnt]) = E i @ concat (map E [Suc i..<cnt])"
      using lt by (rule concat_upt_Cons)
    show ?thesis
    proof (cases "p_idx pg ! i = idx")
      case False
      with less.prems(2) lt have gt: "idx < p_idx pg ! i" by simp
      have "\<forall>j. i \<le> j \<and> j < cnt \<longrightarrow> idx < p_idx pg ! j"
      proof (intro allI impI)
        fix j assume j: "i \<le> j \<and> j < cnt"
        show "idx < p_idx pg ! j"
        proof (cases "j = i")
          case True with gt show ?thesis by simp
        next
          case False
          with j have "i < j" by simp
          from hdE [OF lt] have "hd (E i) \<in> set (E i)" "fst (hd (E i)) = p_idx pg ! i" by simp_all
          with F2 [OF \<open>i < j\<close> _ this(1)] j gt show ?thesis by simp
        qed
      qed
      from nomatch [OF this] have "filter (\<lambda>e. fst e = idx) (concat (map E [i..<cnt])) = []" .
      moreover have "concat (map E [i..<cnt]) \<noteq> []" using cc hdE [OF lt] by simp
      ultimately have "fr_post (concat (map E [i..<cnt])) idx sub None sub"
        using less.prems(3) by (intro fr_post_nomatch) simp_all
      moreover have "find_run idx sub p cnt d i s = Some (None, sub, s)"
        using lt False by (subst find_run.simps) (simp add: pg rk)
      ultimately show ?thesis by blast
    next
      case eq: True
      from child [OF lt less.prems(3,4)] obtain r1 sub1 where
        c: "find_rec idx sub (ptr (p_sub pg ! i)) (count (p_sub pg ! i)) d s = Some (r1, sub1, s)"
          "fr_post (E i) idx sub r1 sub1"
        by blast
      have unfold: "find_run idx sub p cnt d i s =
          (if r1 \<noteq> None then Some (r1, sub1, s)
           else if sub1 < 0 then Some (None, sub1, s)
           else find_run idx sub1 p cnt d (i + 1) s)"
        using lt eq by (subst find_run.simps) (simp add: pg rk rn c(1))
      show ?thesis
      proof (cases r1)
        case (Some h)
        with c(2) have "nat sub < length (filter (\<lambda>e. fst e = idx) (E i))"
          by (simp add: fr_post_Some)
        with c(2) have "fr_post (E i @ concat (map E [Suc i..<cnt])) idx sub r1 sub1"
          by (rule fr_post_found_append)
        with unfold Some cc show ?thesis by simp
      next
        case None
        with c(2) have b: "\<not> nat sub < length (filter (\<lambda>e. fst e = idx) (E i))"
          "- 1 \<le> sub1" "sub1 \<le> sub"
          "(\<forall>e\<in>set (E i). fst e = idx) \<longrightarrow> sub1 = sub - int (length (E i))"
          using fr_post_None_bounds [of "E i" idx sub sub1] by simp_all
        show ?thesis
        proof (cases "\<forall>e\<in>set (E i). fst e = idx")
          case all: True
          then have f: "filter (\<lambda>e. fst e = idx) (E i) = E i" by (simp add: filter_id_conv)
          with b(1) less.prems(3) have ge: "int (length (E i)) \<le> sub" by simp
          from all b(4) have s1: "sub1 = sub - int (length (E i))" by simp
          with ge less.prems(4) have r1: "0 \<le> sub1" "sub1 < 2147483648" by simp_all
          have pre: "Suc i < cnt \<longrightarrow> idx \<le> p_idx pg ! Suc i"
          proof
            assume n: "Suc i < cnt"
            from hdE [OF lt] have "hd (E i) \<in> set (E i)" "fst (hd (E i)) = p_idx pg ! i" by simp_all
            with F2 [OF _ n this(1)] eq show "idx \<le> p_idx pg ! Suc i" by simp
          qed
          have "\<exists>r sub'. find_run idx sub1 p cnt d (Suc i) s = Some (r, sub', s) \<and>
                  fr_post (concat (map E [Suc i..<cnt])) idx sub1 r sub'"
            using lt pre r1 by (intro less.hyps) simp_all
          then obtain r2 sub2 where
            r2: "find_run idx sub1 p cnt d (Suc i) s = Some (r2, sub2, s)"
              "fr_post (concat (map E [Suc i..<cnt])) idx sub1 r2 sub2"
            by blast
          from fr_post_skip_all [OF all ge r2(2) [unfolded s1]]
          have "fr_post (concat (map E [i..<cnt])) idx sub r2 sub2" by (simp add: cc)
          moreover from unfold None r1 r2(1) have "find_run idx sub p cnt d i s = Some (r2, sub2, s)"
            by simp
          ultimately show ?thesis by blast
        next
          case notall: False
          then obtain e where e: "e \<in> set (E i)" "fst e \<noteq> idx" by blast
          with F1 [OF lt e(1)] eq have egt: "idx < fst e" by simp
          have "\<forall>j. Suc i \<le> j \<and> j < cnt \<longrightarrow> idx < p_idx pg ! j"
          proof (intro allI impI)
            fix j assume j: "Suc i \<le> j \<and> j < cnt"
            then have "fst e \<le> p_idx pg ! j" using e(1) by (intro F2 [of i]) simp_all
            with egt show "idx < p_idx pg ! j" by simp
          qed
          from nomatch [OF this]
          have nm: "filter (\<lambda>e. fst e = idx) (concat (map E [Suc i..<cnt])) = []" .
          show ?thesis
          proof (cases "sub1 < 0")
            case True
            have "fr_post (E i @ concat (map E [Suc i..<cnt])) idx sub None sub1"
              using nm b(1) notall b(2,3) by (rule fr_post_nomatch_tail)
            moreover from unfold None True have "find_run idx sub p cnt d i s = Some (None, sub1, s)"
              by simp
            ultimately show ?thesis by (auto simp: cc)
          next
            case False
            with b(3) less.prems(4) have r1: "0 \<le> sub1" "sub1 < 2147483648" by simp_all
            have pre: "Suc i < cnt \<longrightarrow> idx \<le> p_idx pg ! Suc i"
            proof
              assume n: "Suc i < cnt"
              from F2 [OF _ n e(1)] egt show "idx \<le> p_idx pg ! Suc i" by simp
            qed
            have "\<exists>r sub'. find_run idx sub1 p cnt d (Suc i) s = Some (r, sub', s) \<and>
                    fr_post (concat (map E [Suc i..<cnt])) idx sub1 r sub'"
              using lt pre r1 by (intro less.hyps) simp_all
            then obtain r2 sub2 where
              r2: "find_run idx sub1 p cnt d (Suc i) s = Some (r2, sub2, s)"
                "fr_post (concat (map E [Suc i..<cnt])) idx sub1 r2 sub2"
              by blast
            from r2(2) nm have n2: "r2 = None" "- 1 \<le> sub2" "sub2 \<le> sub1"
              by (simp_all add: fr_post_def)
            have "fr_post (E i @ concat (map E [Suc i..<cnt])) idx sub None sub2"
              using nm b(1) notall n2(2) n2(3) b(3) by (intro fr_post_nomatch_tail) simp_all
            moreover from unfold None False r2(1) n2(1)
            have "find_run idx sub p cnt d i s = Some (None, sub2, s)" by simp
            ultimately show ?thesis by (auto simp: cc)
          qed
        qed
      qed
    qed
  qed
qed


lemma find_rec_spec:
  "wf_tree s d n \<Longrightarrow> 0 \<le> sub \<Longrightarrow> sub < 2147483648 \<Longrightarrow>
   \<exists>r sub'. find_rec idx sub (ptr n) (count n) d s = Some (r, sub', s) \<and>
            fr_post (entries s d n) idx sub r sub'"
proof (induction d arbitrary: n sub)
  case 0
  then show ?case by (intro find_rec_leaf)
next
  case (Suc d)
  from Suc.prems(1) obtain pg where pg: "get_page s (ptr n) = Some pg"
    by (auto split: option.splits)
  define cnt where "cnt = count n"
  define E where "E = (\<lambda>j. entries s d (p_sub pg ! j))"
  define fk where "fk = take cnt (p_idx pg)"
  define lt where "lt = ins_pos idx fk"
  define es where "es = entries s (Suc d) n"
  have es: "es = concat (map E [0..<cnt])" by (simp add: es_def pg cnt_def E_def)
  from Suc.prems(1) pg have
    len: "cnt \<le> length (p_idx pg)" "cnt \<le> length (p_sub pg)" and c31: "cnt \<le> 2147483648"
    and srtk: "sorted fk"
    and chwf: "\<And>j. j < cnt \<Longrightarrow> wf_tree s d (p_sub pg ! j)"
    and hdE: "\<And>j. j < cnt \<Longrightarrow> E j \<noteq> [] \<and> fst (hd (E j)) = p_idx pg ! j"
    and srt: "sorted (map fst (concat (map E [0..<cnt])))"
    and torn: "\<And>j. Suc j < cnt \<Longrightarrow> fst (last (E j)) = p_idx pg ! Suc j \<Longrightarrow>
                 p_idx pg ! j = p_idx pg ! Suc j"
    by (simp_all add: cnt_def E_def fk_def)
  have child: "\<exists>r sub'. find_rec idx sub (ptr (p_sub pg ! j)) (count (p_sub pg ! j)) d s = Some (r, sub', s) \<and>
                 fr_post (E j) idx sub r sub'"
    if "j < cnt" "0 \<le> sub" "sub < 2147483648" for j sub
    unfolding E_def using chwf [OF that(1)] that(2,3) by (rule Suc.IH)
  have F1: "p_idx pg ! j \<le> fst e" if "j < cnt" "e \<in> set (E j)" for j e
    using srt hdE that by (rule fence_le_entry)
  have F2: "fst e \<le> p_idx pg ! j'" if "j < j'" "j' < cnt" "e \<in> set (E j)" for j j' e
    using srt hdE that by (rule entry_le_fence)
  have lfk: "length fk = cnt" using len by (simp add: fk_def)
  have ltc: "lt \<le> cnt"
    using length_filter_le [of "\<lambda>x. x < idx" fk] by (simp add: lt_def ins_pos_def lfk)
  have pos: "(p_idx pg ! j < idx) = (j < lt)" if "j < cnt" for j
    using sorted_filter_lt_nth [OF srtk, of j idx] that
    by (simp add: lt_def ins_pos_def lfk) (simp add: fk_def)
  have bs: "binsearch_index idx (p_idx pg) cnt =
            Some (if idx \<in> set fk then int lt else int lt - 1)"
    unfolding lt_def ins_pos_def fk_def
    by (rule binsearch_index_filter [OF srtk [unfolded fk_def] len(1) c31])
  have mem: "idx \<in> set fk \<longleftrightarrow> (\<exists>j<cnt. p_idx pg ! j = idx)"
    using len by (auto simp: fk_def in_set_conv_nth)
  have split: "es = concat (map E [0..<i]) @ concat (map E [i..<cnt])" if "i \<le> cnt" for i
    unfolding es using that by (rule concat_upt_split)
  show ?case
  proof (cases "idx \<in> set fk")
    case False
    with mem have ne: "p_idx pg ! j \<noteq> idx" if "j < cnt" for j using that by blast
    have above: "\<forall>j. lt \<le> j \<and> j < cnt \<longrightarrow> idx < p_idx pg ! j"
    proof (intro allI impI)
      fix j assume j: "lt \<le> j \<and> j < cnt"
      with pos [of j] ne [of j] show "idx < p_idx pg ! j" by auto
    qed
    have nm_above: "filter (\<lambda>e. fst e = idx) (concat (map E [i'..<cnt])) = []" if "lt \<le> i'" for i'
    proof -
      from above that have "\<forall>j. i' \<le> j \<and> j < cnt \<longrightarrow> idx < p_idx pg ! j" by simp
      with srt hdE show ?thesis by (rule concat_no_match)
    qed
    show ?thesis
    proof (cases "lt = 0")
      case True
      then have fr: "find_rec idx sub (ptr n) cnt (Suc d) s = Some (None, sub, s)"
        using False by (subst find_rec.simps) (simp add: pg bs)
      from nm_above [of 0] True have nm: "filter (\<lambda>e. fst e = idx) es = []" by (simp add: es)
      have "fr_post es idx sub None sub"
      proof (cases "es = []")
        case True with Suc.prems(2) show ?thesis by (simp add: fr_post_Nil)
      next
        case False with nm Suc.prems(2) show ?thesis by (intro fr_post_nomatch) simp_all
      qed
      with fr show ?thesis by (auto simp: es_def cnt_def)
    next
      case nz: False
      define c where "c = lt - 1"
      from nz ltc have c: "c < cnt" "Suc c = lt" by (simp_all add: c_def)
      from pos [OF c(1)] c have klt: "p_idx pg ! c < idx" by simp
      from child [OF c(1) Suc.prems(2,3)] obtain r sub' where
        ch: "find_rec idx sub (ptr (p_sub pg ! c)) (count (p_sub pg ! c)) d s = Some (r, sub', s)"
          "fr_post (E c) idx sub r sub'"
        by blast
      have nr: "nat (int lt - 1) = c" using nz by (simp add: c_def)
      have "\<not> int lt - 1 < 0" using nz by simp
      moreover from klt have "p_idx pg ! c \<noteq> idx" by auto
      ultimately have fr: "find_rec idx sub (ptr n) cnt (Suc d) s = Some (r, sub', s)"
        using False c(1) len
        by (subst find_rec.simps) (simp add: pg bs nr ch(1))
      have below: "filter (\<lambda>e. fst e = idx) (concat (map E [0..<c])) = []"
      proof -
        have "fst e \<noteq> idx" if e: "e \<in> set (concat (map E [0..<c]))" for e
        proof -
          from e obtain j where j: "j < c" "e \<in> set (E j)" by auto
          from F2 [OF j(1) c(1) j(2)] klt show ?thesis by auto
        qed
        then show ?thesis by (auto simp: filter_empty_conv)
      qed
      have dec: "es = concat (map E [0..<c]) @ (E c @ concat (map E [Suc c..<cnt]))"
        using split [of c] c(1) by (simp add: concat_upt_Cons)
      have "fr_post (E c @ concat (map E [Suc c..<cnt])) idx sub r sub'"
        using nm_above [of "Suc c"] c(2) ch(2) by (intro fr_post_suffix_no_match) simp_all
      with below have "fr_post es idx sub r sub'"
        unfolding dec by (rule fr_post_prefix_no_match)
      with fr show ?thesis by (auto simp: es_def cnt_def)
    qed
  next
    case True
    with mem obtain j where j: "j < cnt" "p_idx pg ! j = idx" by blast
    with pos [of j] have "lt \<le> j" by simp
    with j have l: "lt < cnt" by simp
    have "p_idx pg ! lt \<le> p_idx pg ! j"
      using sorted_nth_mono [OF srtk, of lt j] \<open>lt \<le> j\<close> j(1) lfk by (simp add: fk_def)
    moreover have "\<not> p_idx pg ! lt < idx" using pos [OF l] by simp
    ultimately have klt: "p_idx pg ! lt = idx" using j(2) by simp
    have pre: "lt < cnt \<longrightarrow> idx \<le> p_idx pg ! lt" by (simp add: klt)
    have "\<exists>r sub'. find_run idx sub (ptr n) cnt d lt s = Some (r, sub', s) \<and>
              fr_post (concat (map E [lt..<cnt])) idx sub r sub'"
      using pg len child hdE srt ltc pre Suc.prems(2,3)
      by (rule find_run_spec)
    then obtain r sub' where
      run: "find_run idx sub (ptr n) cnt d lt s = Some (r, sub', s)"
        "fr_post (concat (map E [lt..<cnt])) idx sub r sub'"
      by blast
    have fr: "find_rec idx sub (ptr n) cnt (Suc d) s = Some (r, sub', s)"
      using True l len klt by (subst find_rec.simps) (simp add: pg bs run(1))
    have below: "filter (\<lambda>e. fst e = idx) (concat (map E [0..<lt])) = []"
    proof -
      have "fst e \<noteq> idx" if e: "e \<in> set (concat (map E [0..<lt]))" for e
      proof
        assume eq: "fst e = idx"
        from e obtain j where j: "j < lt" "e \<in> set (E j)" by auto
        from j(1) l have jc: "j < cnt" "Suc j < cnt \<or> Suc j = cnt" by simp_all
        from j(1) l have sj: "Suc j < cnt" by simp
        have up: "fst e \<le> p_idx pg ! Suc j" using j(2) sj by (intro F2 [of j]) simp_all
        have "Suc j = lt"
        proof (rule ccontr)
          assume "Suc j \<noteq> lt"
          with j(1) have "Suc j < lt" by simp
          with pos [OF sj] have "p_idx pg ! Suc j < idx" by simp
          with up eq show False by simp
        qed
        with klt have fs: "p_idx pg ! Suc j = idx" by simp
        have srtj: "sorted (map fst (E j))" using srt jc(1) by (rule sorted_concat_part)
        have ne: "E j \<noteq> []" using hdE [OF jc(1)] by simp
        have "fst e \<in> set (map fst (E j))" using j(2) by simp
        with srtj have "fst e \<le> last (map fst (E j))" by (rule sorted_last_max)
        with ne have lo: "idx \<le> fst (last (E j))" by (simp add: last_map eq)
        have "last (E j) \<in> set (E j)" using ne by simp
        then have "fst (last (E j)) \<le> p_idx pg ! Suc j" using sj by (intro F2 [of j]) simp_all
        with lo fs have "fst (last (E j)) = p_idx pg ! Suc j" by simp
        from torn [OF sj this] fs have "p_idx pg ! j = idx" by simp
        with pos [OF jc(1)] j(1) show False by simp
      qed
      then show ?thesis by (auto simp: filter_empty_conv)
    qed
    have "fr_post es idx sub r sub'"
      unfolding split [OF ltc] using below run(2) by (rule fr_post_prefix_no_match)
    with fr show ?thesis by (auto simp: es_def cnt_def)
  qed
qed







section \<open>Values as slots of bytes\<close>

lemma value_off_small: "i * vsz < 4294967296 \<Longrightarrow> value_off vsz i = i * vsz"
  by (simp add: value_off_def)

lemma slot_start_le: "j < i \<Longrightarrow> j * v + v \<le> i * (v :: nat)"
proof -
  assume "j < i"
  then have "Suc j * v \<le> i * v" by (intro mult_le_mono1) simp
  then show ?thesis by (simp add: add.commute)
qed

lemma length_value_at: "i * v + v \<le> length b \<Longrightarrow> length (value_at v b i) = v"
  by (simp add: value_at_def)

lemma length_slot_upd:
  "length w = v \<Longrightarrow> i * v + v \<le> length b \<Longrightarrow> length (slot_upd v b i w) = length b"
  by (simp add: slot_upd_def)

lemma value_at_slot_upd:
  assumes w: "length w = v" and i: "i * v + v \<le> length b"
  shows "value_at v (slot_upd v b i w) j = (if j = i then w else value_at v b j)"
proof -
  have li: "length (take (i * v) b) = i * v" using i by simp
  consider "j < i" | "j = i" | "i < j" by linarith
  then show ?thesis
  proof cases
    case 1
    from slot_start_le [OF 1] have le: "j * v + v \<le> i * v" .
    have "take v (drop (j * v) (take (i * v) b @ w @ drop (i * v + v) b)) =
          take v (drop (j * v) (take (i * v) b))"
      using le li by simp
    also have "\<dots> = take v (drop (j * v) b)"
      using le by (simp add: drop_take min_def)
    finally show ?thesis using 1 by (simp add: value_at_def slot_upd_def)
  next
    case 2
    then show ?thesis using li w by (simp add: value_at_def slot_upd_def)
  next
    case 3
    from slot_start_le [OF 3] have le: "i * v + v \<le> j * v" .
    have "drop (j * v) (take (i * v) b @ w @ drop (i * v + v) b) =
          drop (j * v - i * v - v) (drop (i * v + v) b)"
      using le li w 3 by simp
    also have "\<dots> = drop (j * v) b" using le 3 by simp
    finally show ?thesis using 3 by (simp add: value_at_def slot_upd_def)
  qed
qed

lemma memmove_slot:
  "i * v + v \<le> length b \<Longrightarrow> j * v + v \<le> length b \<Longrightarrow>
   memmove b (j * v) b (i * v) v = Some (slot_upd v b j (value_at v b i))"
  by (simp add: memmove_def slot_upd_def value_at_def)

lemma memmove_store:
  "length w = v \<Longrightarrow> i * v + v \<le> length b \<Longrightarrow>
   memmove b (i * v) w 0 (length w) = Some (slot_upd v b i w)"
  by (simp add: memmove_def slot_upd_def)

lemma values_of_nth [simp]: "i < n \<Longrightarrow> values_of v b n ! i = value_at v b i"
  by (simp add: values_of_def)

lemma length_values_of [simp]: "length (values_of v b n) = n"
  by (simp add: values_of_def)

lemma values_of_Suc: "values_of v b (Suc n) = values_of v b n @ [value_at v b n]"
  by (simp add: values_of_def)

lemma take_values_of: "m \<le> n \<Longrightarrow> take m (values_of v b n) = values_of v b m"
  by (simp add: values_of_def take_map)


section \<open>Facts about insertion into a leaf\<close>

lemma memmove_one [simp]:
  "Suc i < length xs \<Longrightarrow> memmove xs (Suc i) xs i (Suc 0) = Some (xs[Suc i := xs ! i])"
proof -
  assume a: "Suc i < length xs"
  then have "drop i xs = xs ! i # drop (Suc i) xs"
    by (simp add: Cons_nth_drop_Suc)
  then have "take (Suc 0) (drop i xs) = [xs ! i]" by simp
  moreover have "xs[Suc i := xs ! i] = take (Suc i) xs @ xs ! i # drop (Suc (Suc i)) xs"
    using a by (rule upd_conv_take_nth_drop)
  ultimately show ?thesis using a by (simp add: memmove_def)
qed

text \<open>The position that lines 256 to 261 compute in a sorted page.\<close>

lemma leaf_put_spec:
  assumes pg: "get_page s (ptr leaf) = Some pg"
    and cnt: "count leaf < length (p_idx pg)"
      "length (p_val pg) = length (p_idx pg) * value_malloc_size s"
      "count leaf \<le> 2147483648"
    and vr: "length (p_idx pg) * value_malloc_size s < 4294967296"
    and srt: "sorted (take (count leaf) (p_idx pg))"
  shows "leaf_put idx leaf s =
     Some (length (filter (\<lambda>x. x < idx) (take (count leaf) (p_idx pg))),
           put_page s (ptr leaf)
             (pg\<lparr>p_idx := (if length (filter (\<lambda>x. x < idx) (take (count leaf) (p_idx pg))) < count leaf
                            then (p_idx pg)[length (filter (\<lambda>x. x < idx) (take (count leaf) (p_idx pg))) + 1 :=
                                   p_idx pg ! length (filter (\<lambda>x. x < idx) (take (count leaf) (p_idx pg)))]
                            else p_idx pg)[length (filter (\<lambda>x. x < idx) (take (count leaf) (p_idx pg))) := idx],
                 p_val := (if length (filter (\<lambda>x. x < idx) (take (count leaf) (p_idx pg))) < count leaf
                            then slot_upd (value_malloc_size s) (p_val pg)
                                   (length (filter (\<lambda>x. x < idx) (take (count leaf) (p_idx pg))) + 1)
                                   (value_at (value_malloc_size s) (p_val pg)
                                      (length (filter (\<lambda>x. x < idx) (take (count leaf) (p_idx pg)))))
                            else p_val pg)\<rparr>))"
proof -
  define ks where "ks = take (count leaf) (p_idx pg)"
  define lt where "lt = length (filter (\<lambda>x. x < idx) ks)"
  have len: "count leaf \<le> length (p_idx pg)" using cnt by simp
  have ltc: "lt \<le> count leaf"
    unfolding lt_def ks_def using length_filter_le [of "\<lambda>x. x < idx" "take (count leaf) (p_idx pg)"] len
    by simp
  have pos: "(p_idx pg ! j < idx) = (j < lt)" if "j < count leaf" for j
    using sorted_filter_lt_nth [OF srt, of j idx] that len by (simp add: lt_def ks_def)
  have bs: "binsearch_index idx (p_idx pg) (count leaf) =
            Some (if idx \<in> set ks then int lt else int lt - 1)"
    unfolding lt_def ks_def by (rule binsearch_index_filter [OF srt len cnt(3)])
  have mem: "idx \<in> set ks \<Longrightarrow> lt < count leaf \<and> p_idx pg ! lt = idx"
  proof -
    assume "idx \<in> set ks"
    then obtain j where j: "j < count leaf" "p_idx pg ! j = idx"
      using len by (auto simp: ks_def in_set_conv_nth)
    with pos [of j] have "lt \<le> j" by simp
    with j have l: "lt < count leaf" by simp
    have "p_idx pg ! lt \<le> p_idx pg ! j"
      using sorted_nth_mono [OF srt, of lt j] \<open>lt \<le> j\<close> j len by simp
    moreover have "\<not> p_idx pg ! lt < idx" using pos [OF l] by simp
    ultimately show ?thesis using l j by simp
  qed
  define r where "r = (if idx \<in> set ks then int lt else int lt - 1)"
  have i: "(if nat r < count leaf
            then do { k \<leftarrow> rd (p_idx pg) (nat r); Some (if k < idx then nat r + 1 else nat r) }
            else Some (nat r)) = Some lt"
  proof (cases "idx \<in> set ks")
    case True
    with mem have "lt < count leaf" "p_idx pg ! lt = idx" by simp_all
    with True len show ?thesis by (simp add: r_def)
  next
    case False
    show ?thesis
    proof (cases "lt = 0")
      case True
      with False have r: "nat r = 0" by (simp add: r_def)
      show ?thesis
      proof (cases "0 < count leaf")
        case c: True
        with pos [of 0] True have "\<not> p_idx pg ! 0 < idx" by simp
        moreover from c len have "0 < length (p_idx pg)" by linarith
        ultimately show ?thesis using r c True by simp
      next
        case c: False
        with r True show ?thesis by simp
      qed
    next
      case nz: False
      with False have r: "nat r = lt - 1" by (simp add: r_def)
      from nz ltc have l: "lt - 1 < count leaf" by simp
      with pos [of "lt - 1"] nz have "p_idx pg ! (lt - 1) < idx" by simp
      with r l nz len show ?thesis by simp
    qed
  qed
  have lt_len: "lt < length (p_idx pg)" using ltc cnt by simp
  have mk: "(if lt < count leaf then memmove (p_idx pg) (lt + 1) (p_idx pg) lt 1 else Some (p_idx pg)) =
            Some (if lt < count leaf then (p_idx pg)[lt + 1 := p_idx pg ! lt] else p_idx pg)"
    using cnt by simp
  define vsz where "vsz = value_malloc_size s"
  have mv: "(if lt < count leaf
             then memmove (p_val pg) (value_off vsz (lt + 1)) (p_val pg) (value_off vsz lt) vsz
             else Some (p_val pg)) =
            Some (if lt < count leaf then slot_upd vsz (p_val pg) (lt + 1) (value_at vsz (p_val pg) lt)
                  else p_val pg)"
  proof (cases "lt < count leaf")
    case True
    with cnt(1) have a: "lt < length (p_idx pg)" "lt + 1 < length (p_idx pg)" by simp_all
    from slot_start_le [OF a(1)] slot_start_le [OF a(2)] cnt(2)
    have r: "lt * vsz + vsz \<le> length (p_val pg)" "(lt + 1) * vsz + vsz \<le> length (p_val pg)"
      by (simp_all add: vsz_def)
    with cnt(2) vr have "lt * vsz < 4294967296" "(lt + 1) * vsz < 4294967296"
      by (simp_all add: vsz_def)
    then have o: "value_off vsz lt = lt * vsz" "value_off vsz (lt + 1) = (lt + 1) * vsz"
      by (simp_all only: value_off_small)
    show ?thesis using True by (simp only: o memmove_slot [OF r] if_True)
  next
    case False
    then show ?thesis by simp
  qed
  have "leaf_put idx leaf s =
     Some (lt, put_page s (ptr leaf)
             (pg\<lparr>p_idx := (if lt < count leaf then (p_idx pg)[lt + 1 := p_idx pg ! lt] else p_idx pg)[lt := idx],
                 p_val := (if lt < count leaf then slot_upd vsz (p_val pg) (lt + 1) (value_at vsz (p_val pg) lt)
                           else p_val pg)\<rparr>))"
    unfolding leaf_put_def
    by (simp only: pg bs r_def [symmetric] i mk mv vsz_def [symmetric] Option.bind.simps)
       (simp add: wr_def lt_len)
  then show ?thesis by (simp only: lt_def ks_def vsz_def)
qed

lemma ins_pos_bound: "ins_pos idx ks \<le> length ks"
  by (simp add: ins_pos_def)

lemma leaf_put_page_ins:
  assumes "get_page s (ptr leaf) = Some pg"
    and "count leaf < length (p_idx pg)"
      "length (p_val pg) = length (p_idx pg) * value_malloc_size s"
      "count leaf \<le> 2147483648"
    and "length (p_idx pg) * value_malloc_size s < 4294967296"
    and "sorted (take (count leaf) (p_idx pg))"
  shows "leaf_put idx leaf s =
     Some (ins_pos idx (take (count leaf) (p_idx pg)),
           put_page s (ptr leaf) (page_ins (value_malloc_size s) idx (count leaf) pg))"
  unfolding ins_pos_def page_ins_def by (rule leaf_put_spec [OF assms])

lemma get_put_page:
  "get_page s p = Some pg0 \<Longrightarrow> get_page (put_page s p pg) q = (if q = p then Some pg else get_page s q)"
  by (cases p; cases q) (auto simp: get_page_def put_page_def rd_def nth_list_update split: if_splits)

lemma put_page_fields [simp]:
  "tree_root (put_page s p pg) = tree_root s"
  "tree_depth (put_page s p pg) = tree_depth s"
  "max_entry_per_node (put_page s p pg) = max_entry_per_node s"
  "value_malloc_size (put_page s p pg) = value_malloc_size s"
  by (cases p; simp add: put_page_def)+

lemma get_page_root_upd [simp]:
  "get_page (s\<lparr>tree_root := n\<rparr>) p = get_page s p"
  "get_page (s\<lparr>tree_depth := d\<rparr>) p = get_page s p"
  by (cases p; simp add: get_page_def)+

lemma insert_rec_leaf_root:
  assumes lr: "leaf_root s pg" and vr: "value_room s pg"
    and room: "count (tree_root s) < max_entry_per_node s"
  shows "insert_rec idx RootRef 0 s =
     Some (Inr ((ptr (tree_root s),
                 ins_pos idx (take (count (tree_root s)) (p_idx pg)) * value_malloc_size s),
                \<lparr>ptr = Null, count = 0\<rparr>),
           (put_page s (ptr (tree_root s))
              (page_ins (value_malloc_size s) idx (count (tree_root s)) pg))
              \<lparr>tree_root := (tree_root s)\<lparr>count := count (tree_root s) + 1\<rparr>\<rparr>)"
proof -
  have pg: "get_page s (ptr (tree_root s)) = Some pg" using lr by (simp add: leaf_root_def)
  have put: "leaf_put idx (tree_root s) s =
     Some (ins_pos idx (take (count (tree_root s)) (p_idx pg)),
           put_page s (ptr (tree_root s))
             (page_ins (value_malloc_size s) idx (count (tree_root s)) pg))"
    using lr vr room by (intro leaf_put_page_ins) (simp_all add: leaf_root_def value_room_def)
  have m: "Suc (count (tree_root s)) mod 4294967296 = Suc (count (tree_root s))"
    using lr room by (simp add: leaf_root_def)
  have "ins_pos idx (take (count (tree_root s)) (p_idx pg)) \<le> max_entry_per_node s"
    using ins_pos_bound [of idx "take (count (tree_root s)) (p_idx pg)"] room by simp
  then have "ins_pos idx (take (count (tree_root s)) (p_idx pg)) * value_malloc_size s
               \<le> max_entry_per_node s * value_malloc_size s"
    by (rule mult_le_mono1)
  moreover have "max_entry_per_node s * value_malloc_size s < 4294967296"
    using vr by (simp add: value_room_def)
  ultimately have "ins_pos idx (take (count (tree_root s)) (p_idx pg)) * value_malloc_size s
               < 4294967296"
    by linarith
  then have off: "value_off (value_malloc_size s) (ins_pos idx (take (count (tree_root s)) (p_idx pg))) =
      ins_pos idx (take (count (tree_root s)) (p_idx pg)) * value_malloc_size s"
    by (rule value_off_small)
  show ?thesis
    using room
    by (subst insert_rec.simps)
       (simp add: rd_node_def wr_node_def put incr_count_def m node_to_value_def off)
qed

lemma insert_tree_leaf_root:
  assumes lr: "leaf_root s pg" and vr: "value_room s pg"
    and room: "count (tree_root s) < max_entry_per_node s"
  shows "insert_tree idx s =
     Some (Inr (ptr (tree_root s),
                ins_pos idx (take (count (tree_root s)) (p_idx pg)) * value_malloc_size s),
           (put_page s (ptr (tree_root s))
              (page_ins (value_malloc_size s) idx (count (tree_root s)) pg))
              \<lparr>tree_root := (tree_root s)\<lparr>count := count (tree_root s) + 1\<rparr>\<rparr>)"
proof -
  have d: "tree_depth s = 0" using lr by (simp add: leaf_root_def)
  show ?thesis
    unfolding insert_tree_def d by (simp add: insert_rec_leaf_root [OF lr vr room])
qed

subsection \<open>Insertion at the computed position\<close>

lemma ins_pos_le: "ins_pos k ks \<le> length ks"
  by (simp add: ins_pos_def)

lemma ins_pos_parts:
  assumes "sorted ks"
  shows "\<forall>x\<in>set (take (ins_pos k ks) ks). x < k" "\<forall>x\<in>set (drop (ins_pos k ks) ks). k \<le> x"
proof -
  have pos: "(ks ! j < k) = (j < ins_pos k ks)" if "j < length ks" for j
    using sorted_filter_lt_nth [OF assms that, of k] by (simp add: ins_pos_def)
  show "\<forall>x\<in>set (take (ins_pos k ks) ks). x < k"
  proof
    fix x assume "x \<in> set (take (ins_pos k ks) ks)"
    then obtain j where j: "j < ins_pos k ks" "j < length ks" "x = ks ! j"
      by (auto simp: in_set_conv_nth)
    with pos [of j] show "x < k" by simp
  qed
  show "\<forall>x\<in>set (drop (ins_pos k ks) ks). k \<le> x"
  proof
    fix x assume "x \<in> set (drop (ins_pos k ks) ks)"
    then obtain j where j: "j < length ks - ins_pos k ks" "x = ks ! (ins_pos k ks + j)"
      by (auto simp: in_set_conv_nth)
    then have "ins_pos k ks + j < length ks" by simp
    with pos [of "ins_pos k ks + j"] have "\<not> ks ! (ins_pos k ks + j) < k" by simp
    with j show "k \<le> x" by simp
  qed
qed

lemma sorted_ins:
  assumes "sorted ks"
  shows "sorted (take (ins_pos k ks) ks @ k # drop (ins_pos k ks) ks)"
proof -
  have "sorted (take (ins_pos k ks) ks)" "sorted (drop (ins_pos k ks) ks)"
    using assms by (simp_all add: sorted_wrt_take sorted_wrt_drop)
  moreover have "\<forall>x\<in>set (take (ins_pos k ks) ks). \<forall>y\<in>set (drop (ins_pos k ks) ks). x \<le> y"
    using ins_pos_parts [OF assms, of k] by fastforce
  moreover have "\<forall>x\<in>set (take (ins_pos k ks) ks). x \<le> k"
    using ins_pos_parts(1) [OF assms, of k] by fastforce
  ultimately show ?thesis
    using ins_pos_parts(2) [OF assms, of k] by (simp add: sorted_append)
qed



text \<open>The first \<open>cnt + 1\<close> slots after lines 263 to 269, where one slot is enough.\<close>

lemma shift_one_take:
  assumes "cnt < length xs" "i \<le> cnt" "cnt \<le> i + 1"
  shows "take (Suc cnt) ((if i < cnt then xs[i + 1 := xs ! i] else xs)[i := x]) =
         take i (take cnt xs) @ x # drop i (take cnt xs)"
proof (cases "i = cnt")
  case True
  with assms show ?thesis by (simp add: take_Suc_conv_app_nth)
next
  case False
  with assms have i: "Suc i = cnt" by simp
  have "take (Suc cnt) (xs[Suc i := xs ! i, i := x]) = take i xs @ [x, xs ! i]"
  proof (rule nth_equalityI)
    show "length (take (Suc cnt) (xs[Suc i := xs ! i, i := x])) = length (take i xs @ [x, xs ! i])"
      using assms i by simp
  next
    fix j assume "j < length (take (Suc cnt) (xs[Suc i := xs ! i, i := x]))"
    with assms i have j: "j < Suc (Suc i)" by simp
    then consider "j < i" | "j = i" | "j = Suc i" by linarith
    then show "take (Suc cnt) (xs[Suc i := xs ! i, i := x]) ! j = (take i xs @ [x, xs ! i]) ! j"
      using assms i by cases (simp_all add: nth_append)
  qed
  moreover have "drop i (take cnt xs) = [xs ! i]"
  proof -
    have "take cnt xs = take i xs @ [xs ! i]"
      using assms i by (simp add: take_Suc_conv_app_nth [symmetric])
    then show ?thesis using assms i by simp
  qed
  ultimately show ?thesis using False i assms by simp
qed


subsection \<open>Inserts into a root leaf, one after the other\<close>

lemma find_tree_entries:
  assumes "wf_tree s (tree_depth s) (tree_root s)" "0 \<le> occ" "occ < 2147483648"
  shows "find_tree idx occ s =
           Some (rd (map snd (filter (\<lambda>e. fst e = idx) (entries s (tree_depth s) (tree_root s))))
                    (nat occ), s)"
proof -
  from find_rec_spec [OF assms, of idx] obtain r sub' where
    r: "find_rec idx occ (ptr (tree_root s)) (count (tree_root s)) (tree_depth s) s = Some (r, sub', s)"
      "fr_post (entries s (tree_depth s) (tree_root s)) idx occ r sub'"
    by blast
  from r(2) have "r = rd (map snd (filter (\<lambda>e. fst e = idx) (entries s (tree_depth s) (tree_root s)))) (nat occ)"
    by (auto simp: fr_post_def rd_def split: if_splits)
  with r(1) show ?thesis by (simp add: find_tree_def)
qed

lemma find_tree_leaf_root:
  assumes lr: "leaf_root s pg" and occ: "0 \<le> occ" "occ < 2147483648"
  shows "find_tree k occ s =
     Some (if nat occ < length (filter (\<lambda>x. x = k) (take (count (tree_root s)) (p_idx pg)))
           then Some (ptr (tree_root s),
                      value_off (value_malloc_size s)
                        (ins_pos k (take (count (tree_root s)) (p_idx pg)) + nat occ))
           else None, s)"
proof -
  from lr have d: "tree_depth s = 0" and pg: "get_page s (ptr (tree_root s)) = Some pg"
    and len: "count (tree_root s) \<le> length (p_idx pg)"
    and srt: "sorted (take (count (tree_root s)) (p_idx pg))"
    and c31: "count (tree_root s) \<le> 2147483648"
    by (simp_all add: leaf_root_def)
  have wf: "wf_tree s (tree_depth s) (tree_root s)"
    using pg len srt c31 by (simp add: d)
  have "filter (\<lambda>e. fst e = k) (entries s (tree_depth s) (tree_root s)) =
        map (\<lambda>i. (k, node_to_value (value_malloc_size s) (ptr (tree_root s)) i))
          [ins_pos k (take (count (tree_root s)) (p_idx pg))..<
           ins_pos k (take (count (tree_root s)) (p_idx pg)) +
             length (filter (\<lambda>x. x = k) (take (count (tree_root s)) (p_idx pg)))]"
    using leaf_matches [OF srt len, of k "node_to_value (value_malloc_size s) (ptr (tree_root s))"]
    by (simp add: d pg)
  with find_tree_entries [OF wf occ, of k] show ?thesis
    by (simp add: rd_def node_to_value_def o_def)
qed

lemma put_page_leaf_frame [simp]:
  "mm_nodes (put_page s (LeafPage r) pg) = mm_nodes s"
  "room (mm_leaves (put_page s (LeafPage r) pg)) = room (mm_leaves s)"
  "length (pages (mm_leaves (put_page s (LeafPage r) pg))) = length (pages (mm_leaves s))"
  by (simp_all add: put_page_def)

lemma page_ins_lengths [simp]:
  "length (p_idx (page_ins vsz k cnt pg)) = length (p_idx pg)"
  by (simp add: page_ins_def)

lemma values_of_slot_upd:
  assumes w: "length w = v" and i: "i < n" and n: "n * v \<le> length b"
  shows "values_of v (slot_upd v b i w) n = (values_of v b n)[i := w]"
proof (rule nth_equalityI)
  show "length (values_of v (slot_upd v b i w) n) = length ((values_of v b n)[i := w])" by simp
next
  fix j assume "j < length (values_of v (slot_upd v b i w) n)"
  then have j: "j < n" by simp
  from slot_start_le [OF i, of v] n have "i * v + v \<le> length b" by linarith
  from value_at_slot_upd [OF w this, of j] j i
  show "values_of v (slot_upd v b i w) n ! j = (values_of v b n)[i := w] ! j"
    by (simp add: nth_list_update)
qed

lemma slots_in_room: "value_room s pg \<Longrightarrow> i < max_entry_per_node s \<Longrightarrow>
  i * value_malloc_size s + value_malloc_size s \<le> length (p_val pg) \<and>
  i * value_malloc_size s < 4294967296"
  using slot_start_le [of i "max_entry_per_node s" "value_malloc_size s"]
  by (simp add: value_room_def)

lemma insert_store_leaf:
  assumes st: "leaf_state s ks vs" and room: "length ks < max_entry_per_node s"
    and one: "length ks \<le> ins_pos k ks + 1" and lv: "length v = value_malloc_size s"
  shows "\<exists>s1 s2. insert_tree k s =
             Some (Inr (ptr (tree_root s), ins_pos k ks * value_malloc_size s), s1) \<and>
           store_value (ptr (tree_root s), ins_pos k ks * value_malloc_size s) v s1 = Some s2 \<and>
           leaf_state s2 (take (ins_pos k ks) ks @ k # drop (ins_pos k ks) ks)
                         (take (ins_pos k ks) vs @ v # drop (ins_pos k ks) vs) \<and>
           same_frame s s2"
proof -
  define cnt where "cnt = length ks"
  define vsz where "vsz = value_malloc_size s"
  define cap where "cap = max_entry_per_node s"
  from st obtain pg r where lr: "leaf_root s pg" and vr: "value_room s pg"
    and r: "ptr (tree_root s) = LeafPage r"
    and c: "count (tree_root s) = cnt"
    and pk: "p_idx pg = ks @ replicate (cap - cnt) 0"
    and vsc: "values_of vsz (p_val pg) cnt = vs" and ps: "p_sub pg = []"
    by (auto simp: leaf_state_def cnt_def vsz_def cap_def)
  define i where "i = ins_pos k ks"
  from lr have d: "tree_depth s = 0" and pg: "get_page s (LeafPage r) = Some pg"
    and li: "length (p_idx pg) = cap"
    and m31: "cap \<le> 2147483648"
    and srt: "sorted (take cnt (p_idx pg))"
    by (simp_all add: leaf_root_def r c cap_def)
  from vr have lb: "length (p_val pg) = cap * vsz" and bound: "cap * vsz < 4294967296"
    by (simp_all add: value_room_def cap_def vsz_def)
  have ksc: "take cnt (p_idx pg) = ks" by (simp add: pk cnt_def)
  have cl: "cnt < cap" using room by (simp add: cnt_def cap_def)
  have lvs: "length vs = cnt" using vsc by auto
  have ic: "i \<le> cnt" using ins_pos_le [of k ks] by (simp add: i_def cnt_def)
  define X where "X = values_of vsz (p_val pg) cap"
  have lX: "length X = cap" by (simp add: X_def)
  have tX: "take cnt X = vs" using cl vsc by (simp add: X_def take_values_of)
  define pg1 where "pg1 = page_ins vsz k cnt pg"
  define s1 where "s1 = (put_page s (LeafPage r) pg1)\<lparr>tree_root := (tree_root s)\<lparr>count := cnt + 1\<rparr>\<rparr>"
  define pg2 where "pg2 = pg1\<lparr>p_val := slot_upd vsz (p_val pg1) i v\<rparr>"
  define s2 where "s2 = put_page s1 (LeafPage r) pg2"
  have ins: "insert_tree k s = Some (Inr (ptr (tree_root s), i * vsz), s1)"
    using insert_tree_leaf_root [OF lr vr, of k] cl
    by (simp add: c r ksc i_def s1_def pg1_def vsz_def cap_def)
  have g1: "get_page s1 (LeafPage r) = Some pg1"
    by (simp add: s1_def get_put_page [OF pg])
  have p1: "p_idx pg1 = (if i < cnt then (p_idx pg)[i + 1 := p_idx pg ! i] else p_idx pg)[i := k]"
    "p_val pg1 = (if i < cnt then slot_upd vsz (p_val pg) (i + 1) (value_at vsz (p_val pg) i)
                  else p_val pg)"
    by (simp_all add: pg1_def page_ins_def ksc i_def [symmetric])
  have in_i: "i * vsz + vsz \<le> cap * vsz" using slot_start_le [of i cap vsz] ic cl by simp
  have in_i1: "i < cnt \<Longrightarrow> (i + 1) * vsz + vsz \<le> cap * vsz"
    using slot_start_le [of "i + 1" cap vsz] cl by simp
  have lva: "length (value_at vsz (p_val pg) i) = vsz"
    using in_i lb by (simp add: length_value_at)
  have l1: "length (p_val pg1) = cap * vsz"
    using in_i1 lb lva by (simp add: p1 length_slot_upd)
  have X1: "values_of vsz (p_val pg1) cap = (if i < cnt then X[i + 1 := X ! i] else X)"
  proof (cases "i < cnt")
    case True
    then have "i + 1 < cap" "i < cap" using cl by simp_all
    with values_of_slot_upd [OF lva, of "i + 1" cap "p_val pg"] lb True
    show ?thesis by (simp add: p1 X_def)
  next
    case False
    then show ?thesis by (simp add: p1 X_def)
  qed
  have X2: "values_of vsz (p_val pg2) cap = (if i < cnt then X[i + 1 := X ! i] else X)[i := v]"
    using values_of_slot_upd [of v vsz i cap "p_val pg1"] lv l1 ic cl X1
    by (simp add: pg2_def vsz_def)
  have st2: "store_value (ptr (tree_root s), i * vsz) v s1 = Some s2"
    using memmove_store [of v vsz i "p_val pg1"] lv in_i l1
    by (simp add: store_value_def r g1 s2_def pg2_def vsz_def)
  have g2: "get_page s2 (LeafPage r) = Some pg2"
    by (simp add: s2_def get_put_page [OF g1])
  have root2: "tree_root s2 = (tree_root s)\<lparr>count := cnt + 1\<rparr>"
    by (simp add: s2_def s1_def)
  have one': "cnt \<le> i + 1" using one by (simp add: i_def cnt_def)
  have k2: "take (Suc cnt) (p_idx pg2) = take i ks @ k # drop i ks"
    using shift_one_take [of cnt "p_idx pg" i k] cl li ic one'
    by (simp add: pg2_def p1 ksc)
  have "values_of vsz (p_val pg2) (Suc cnt) = take (Suc cnt) (values_of vsz (p_val pg2) cap)"
    using cl by (simp add: take_values_of)
  also have "\<dots> = take i vs @ v # drop i vs"
    using shift_one_take [of cnt X i v] cl lX ic one' by (simp add: X2 tX)
  finally have v2: "values_of vsz (p_val pg2) (Suc cnt) = take i vs @ v # drop i vs" .
  have "drop (Suc cnt) (p_idx pg2) = drop (Suc cnt) (p_idx pg)"
    using ic by (simp add: pg2_def p1)
  also have "\<dots> = replicate (cap - Suc cnt) 0"
    by (simp add: pk cnt_def)
  finally have "take (Suc cnt) (p_idx pg2) @ drop (Suc cnt) (p_idx pg2) =
      (take i ks @ k # drop i ks) @ replicate (cap - Suc cnt) 0"
    by (simp only: k2)
  then have pk2: "p_idx pg2 = (take i ks @ k # drop i ks) @ replicate (cap - Suc cnt) 0"
    by (simp only: append_take_drop_id)
  have l2: "length (take i ks @ k # drop i ks) = Suc cnt" "length (take i vs @ v # drop i vs) = Suc cnt"
    using ic lvs by (simp_all add: cnt_def)
  have m2: "max_entry_per_node s2 = cap" "value_malloc_size s2 = vsz"
    by (simp_all add: s2_def s1_def cap_def vsz_def)
  have "leaf_root s2 pg2"
    using g2 li m31 cl sorted_ins [OF srt [unfolded ksc], of k]
    by (simp add: leaf_root_def root2 r k2 i_def [symmetric] m2)
       (simp add: s2_def s1_def d pg2_def pg1_def)
  moreover have "value_room s2 pg2"
    using l1 lv in_i bound by (simp add: value_room_def m2 pg2_def length_slot_upd vsz_def)
  moreover have "p_sub pg2 = []" by (simp add: pg2_def pg1_def page_ins_def ps)
  ultimately have "leaf_state s2 (take i ks @ k # drop i ks) (take i vs @ v # drop i vs)"
    unfolding leaf_state_def l2 m2 using pk2 v2 by (auto simp: root2 r)
  moreover have "same_frame s s2"
    by (simp add: same_frame_def s2_def s1_def r)
  ultimately show ?thesis using ins st2 by (auto simp: i_def vsz_def)
qed

lemma same_frame_trans: "same_frame s s1 \<Longrightarrow> same_frame s1 s2 \<Longrightarrow> same_frame s s2"
  by (simp add: same_frame_def)

lemma same_frame_refl [simp]: "same_frame s s"
  by (simp add: same_frame_def)

lemma insert_all_one_slot:
  "leaf_state s ks vs \<Longrightarrow> one_slot ks kvs \<Longrightarrow> length ks + length kvs \<le> max_entry_per_node s \<Longrightarrow>
   list_all (\<lambda>kv. length (snd kv) = value_malloc_size s) kvs \<Longrightarrow>
   \<exists>s'. insert_all kvs s =
           Some (map (\<lambda>i. (ptr (tree_root s), i * value_malloc_size s))
                   (fst (model_run ks vs kvs)), s') \<and>
        leaf_state s' (fst (snd (model_run ks vs kvs))) (snd (snd (model_run ks vs kvs))) \<and>
        same_frame s s'"
proof (induction kvs arbitrary: s ks vs)
  case Nil
  then show ?case by simp
next
  case (Cons kv kvs)
  define i where "i = ins_pos (fst kv) ks"
  define vsz where "vsz = value_malloc_size s"
  from Cons.prems have one: "length ks \<le> i + 1"
    and rest: "one_slot (take i ks @ fst kv # drop i ks) kvs"
    and room: "length ks < max_entry_per_node s"
    and lv: "length (snd kv) = value_malloc_size s"
    and lvs: "list_all (\<lambda>kv. length (snd kv) = value_malloc_size s) kvs"
    by (simp_all add: i_def)
  from insert_store_leaf [OF Cons.prems(1) room one [unfolded i_def] lv]
  obtain s1 s2 where
    a: "insert_tree (fst kv) s = Some (Inr (ptr (tree_root s), i * vsz), s1)"
      "store_value (ptr (tree_root s), i * vsz) (snd kv) s1 = Some s2"
      "leaf_state s2 (take i ks @ fst kv # drop i ks) (take i vs @ snd kv # drop i vs)"
      "same_frame s s2"
    by (auto simp: i_def vsz_def)
  have il: "i \<le> length ks" using ins_pos_le [of "fst kv" ks] by (simp add: i_def)
  have len: "length (take i ks @ fst kv # drop i ks) + length kvs \<le> max_entry_per_node s2"
    using Cons.prems(3) a(4) il by (simp add: same_frame_def)
  have v2: "value_malloc_size s2 = value_malloc_size s" using a(4) by (simp add: same_frame_def)
  have lvs2: "list_all (\<lambda>kv. length (snd kv) = value_malloc_size s2) kvs"
    using lvs by (simp add: v2)
  from Cons.IH [OF a(3) rest len lvs2] obtain s' where
    b: "insert_all kvs s2 =
          Some (map (\<lambda>j. (ptr (tree_root s2), j * value_malloc_size s2))
                 (fst (model_run (take i ks @ fst kv # drop i ks) (take i vs @ snd kv # drop i vs) kvs)), s')"
      "leaf_state s' (fst (snd (model_run (take i ks @ fst kv # drop i ks) (take i vs @ snd kv # drop i vs) kvs)))
                     (snd (snd (model_run (take i ks @ fst kv # drop i ks) (take i vs @ snd kv # drop i vs) kvs)))"
      "same_frame s2 s'"
    by blast
  have p: "ptr (tree_root s2) = ptr (tree_root s)" using a(4) by (simp add: same_frame_def)
  show ?case
    using a(1,2) b(1,2) same_frame_trans [OF a(4) b(3)]
    by (auto simp: i_def [symmetric] p v2 vsz_def split: prod.splits)
qed

subsection \<open>The new tree and the first scenario\<close>

lemma fresh_tree_new: "page_tree_new 1 8 9 = Inr fresh_tree"
  by (simp add: page_tree_new_def alloc_leaf_page_def alloc_def fresh_tree_def)

lemma fresh_tree_fields [simp]:
  "ptr (tree_root fresh_tree) = LeafPage 0" "max_entry_per_node fresh_tree = 512"
  "mm_nodes fresh_tree = \<lparr>pages = [], room = 8\<rparr>" "tree_depth fresh_tree = 0"
  "room (mm_leaves fresh_tree) = 8" "length (pages (mm_leaves fresh_tree)) = 1"
  by (simp_all add: fresh_tree_def)

lemma fresh_tree_state: "leaf_state fresh_tree [] []"
  by (simp add: leaf_state_def leaf_root_def value_room_def values_of_def fresh_tree_def
        get_page_def blank_leaf_def)

lemma leaf_state_find:
  assumes st: "leaf_state s ks vs" and occ: "0 \<le> occ" "occ < 2147483648"
  shows "find_tree k occ s =
     Some (if nat occ < length (filter (\<lambda>x. x = k) ks)
           then Some (ptr (tree_root s), (ins_pos k ks + nat occ) * value_malloc_size s)
           else None, s)"
proof -
  from st obtain pg where lr: "leaf_root s pg" and vr: "value_room s pg"
    and c: "count (tree_root s) = length ks"
    and pk: "p_idx pg = ks @ replicate (max_entry_per_node s - length ks) 0"
    by (auto simp: leaf_state_def)
  have t: "take (count (tree_root s)) (p_idx pg) = ks" by (simp add: c pk)
  have cap: "length ks \<le> max_entry_per_node s" using lr c by (simp add: leaf_root_def)
  have off: "value_off (value_malloc_size s) (ins_pos k ks + nat occ) =
             (ins_pos k ks + nat occ) * value_malloc_size s"
    if "nat occ < length (filter (\<lambda>x. x = k) ks)"
  proof -
    have "ins_pos k ks + length (filter (\<lambda>x. x = k) ks) \<le> length ks"
      using length_filter_le [of "\<lambda>x. x \<le> k" ks] by (simp add: filter_le_split ins_pos_def)
    with that cap have "ins_pos k ks + nat occ < max_entry_per_node s" by simp
    with slots_in_room [OF vr this] show ?thesis by (intro value_off_small) simp
  qed
  from find_tree_leaf_root [OF lr occ, of k] off show ?thesis by (simp add: t)
qed






lemma insert_all_append:
  "insert_all (A @ B) s =
     (case insert_all A s of
        None \<Rightarrow> None
      | Some (hs, s') \<Rightarrow>
          (case insert_all B s' of
             None \<Rightarrow> None
           | Some (hs', s'') \<Rightarrow> Some (hs @ hs', s'')))"
  by (induction A arbitrary: s) (auto split: option.splits sum.splits prod.splits)

lemma insert_store_keys:
  assumes st: "leaf_state s ks vs" and room: "length ks < max_entry_per_node s"
    and lv: "length v = value_malloc_size s"
  shows "\<exists>s1 s2. insert_tree k s =
             Some (Inr (ptr (tree_root s), ins_pos k ks * value_malloc_size s), s1) \<and>
           store_value (ptr (tree_root s), ins_pos k ks * value_malloc_size s) v s1 = Some s2 \<and>
           leaf_keys s2 =
             (if ins_pos k ks < length ks then (ks @ [0])[ins_pos k ks + 1 := ks ! ins_pos k ks]
              else ks @ [0])[ins_pos k ks := k]"
proof -
  define cnt where "cnt = length ks"
  define vsz where "vsz = value_malloc_size s"
  define cap where "cap = max_entry_per_node s"
  from st obtain pg r where lr: "leaf_root s pg" and vr: "value_room s pg"
    and r: "ptr (tree_root s) = LeafPage r"
    and c: "count (tree_root s) = cnt"
    and pk: "p_idx pg = ks @ replicate (cap - cnt) 0"
    by (auto simp: leaf_state_def cnt_def cap_def)
  define i where "i = ins_pos k ks"
  from lr have pg: "get_page s (LeafPage r) = Some pg"
    by (simp_all add: leaf_root_def r)
  from vr have lb: "length (p_val pg) = cap * vsz"
    by (simp_all add: value_room_def cap_def vsz_def)
  have ksc: "take cnt (p_idx pg) = ks" by (simp add: pk cnt_def)
  have cl: "cnt < cap" using room by (simp add: cnt_def cap_def)
  have ic: "i \<le> cnt" using ins_pos_le [of k ks] by (simp add: i_def cnt_def)
  define pg1 where "pg1 = page_ins vsz k cnt pg"
  define s1 where "s1 = (put_page s (LeafPage r) pg1)\<lparr>tree_root := (tree_root s)\<lparr>count := cnt + 1\<rparr>\<rparr>"
  define pg2 where "pg2 = pg1\<lparr>p_val := slot_upd vsz (p_val pg1) i v\<rparr>"
  define s2 where "s2 = put_page s1 (LeafPage r) pg2"
  have ins: "insert_tree k s = Some (Inr (ptr (tree_root s), i * vsz), s1)"
    using insert_tree_leaf_root [OF lr vr, of k] cl
    by (simp add: c r ksc i_def s1_def pg1_def vsz_def cap_def)
  have g1: "get_page s1 (LeafPage r) = Some pg1"
    by (simp add: s1_def get_put_page [OF pg])
  have in_i: "i * vsz + vsz \<le> cap * vsz" using slot_start_le [of i cap vsz] ic cl by simp
  have in_i1: "i < cnt \<Longrightarrow> (i + 1) * vsz + vsz \<le> cap * vsz"
    using slot_start_le [of "i + 1" cap vsz] cl by simp
  have lva: "length (value_at vsz (p_val pg) i) = vsz"
    using in_i lb by (simp add: length_value_at)
  have l1: "length (p_val pg1) = cap * vsz"
    using in_i1 lb lva by (simp add: pg1_def page_ins_def ksc i_def [symmetric] length_slot_upd)
  have st2: "store_value (ptr (tree_root s), i * vsz) v s1 = Some s2"
    using memmove_store [of v vsz i "p_val pg1"] lv in_i l1
    by (simp add: store_value_def r g1 s2_def pg2_def vsz_def)
  have g2: "get_page s2 (LeafPage r) = Some pg2"
    by (simp add: s2_def get_put_page [OF g1])
  have root2: "tree_root s2 = (tree_root s)\<lparr>count := cnt + 1\<rparr>"
    by (simp add: s2_def s1_def)
  have rep: "replicate (cap - cnt) (0 :: t_idx) = 0 # replicate (cap - Suc cnt) 0"
    using cl by (cases "cap - cnt") simp_all
  have pk': "p_idx pg = (ks @ [0]) @ replicate (cap - Suc cnt) 0"
    by (simp add: pk rep)
  have ki: "i < cnt \<Longrightarrow> p_idx pg ! i = ks ! i" by (simp add: pk nth_append cnt_def)
  have "p_idx pg2 = (if i < cnt then (p_idx pg)[i + 1 := p_idx pg ! i] else p_idx pg)[i := k]"
    by (simp add: pg2_def pg1_def page_ins_def ksc i_def [symmetric])
  also have "\<dots> = ((if i < cnt then (ks @ [0])[i + 1 := ks ! i] else ks @ [0])[i := k]) @
                     replicate (cap - Suc cnt) 0"
    using ic ki by (simp add: pk' list_update_append cnt_def)
  finally have "take (Suc cnt) (p_idx pg2) =
      (if i < cnt then (ks @ [0])[i + 1 := ks ! i] else ks @ [0])[i := k]"
    by (simp add: cnt_def)
  then have "leaf_keys s2 = (if i < cnt then (ks @ [0])[i + 1 := ks ! i] else ks @ [0])[i := k]"
    by (simp add: leaf_keys_def root2 r g2)
  with ins st2 show ?thesis unfolding i_def cnt_def vsz_def by blast
qed

section \<open>The split point of a sorted page\<close>

lemma word_of_nat_less:
  "a < b \<Longrightarrow> b < 18446744073709551616 \<Longrightarrow> (word_of_nat a :: 64 word) < word_of_nat b"
  by (simp add: word_less_nat_alt unat_of_nat take_bit_nat_eq_self)

lemma no_lt_first:
  "sorted ks \<Longrightarrow> 0 < length ks \<Longrightarrow> length (filter (\<lambda>x. x < ks ! 0) ks) = 0"
  using sorted_filter_lt_nth [of ks 0 "ks ! 0"] by auto

lemma split_back_sorted:
  "sorted ks \<Longrightarrow> j < length ks \<Longrightarrow> split_back ks j = Some (ins_pos (ks ! j) ks)"
proof (induction j)
  case 0
  with sorted_filter_lt_nth [of ks 0 "ks ! 0"] have "ins_pos (ks ! 0) ks = 0"
    by (simp add: ins_pos_def)
  then show ?case by (subst split_back.simps) simp
next
  case (Suc j)
  have pos: "(ks ! i < ks ! Suc j) = (i < ins_pos (ks ! Suc j) ks)" if "i < length ks" for i
    using sorted_filter_lt_nth [OF Suc.prems(1) that, of "ks ! Suc j"] by (simp add: ins_pos_def)
  show ?case
  proof (cases "ks ! Suc j = ks ! j")
    case True
    with Suc show ?thesis by (subst split_back.simps) simp
  next
    case False
    have "ks ! j \<le> ks ! Suc j" using Suc.prems by (intro sorted_nth_mono) simp_all
    with False have "ks ! j < ks ! Suc j" by simp
    with pos [of j] Suc.prems pos [of "Suc j"] have "ins_pos (ks ! Suc j) ks = Suc j" by simp
    with False Suc.prems show ?thesis by (subst split_back.simps) simp
  qed
qed

lemma split_fwd_sorted:
  assumes "sorted ks" "length (filter (\<lambda>x. x = ks ! 0) ks) < length ks"
  shows "j \<le> length (filter (\<lambda>x. x = ks ! 0) ks) \<Longrightarrow>
         split_fwd ks j = Some (length (filter (\<lambda>x. x = ks ! 0) ks))"
proof (induction "length (filter (\<lambda>x. x = ks ! 0) ks) - j" arbitrary: j)
  case 0
  then have j: "j = length (filter (\<lambda>x. x = ks ! 0) ks)" by simp
  have ne: "ks \<noteq> []" "0 < length ks" using assms(2) by auto
  have z: "length (filter (\<lambda>x. x < ks ! 0) ks) = 0"
    using no_lt_first [OF assms(1)] assms(2) by (cases ks) auto
  from sorted_nth_eq_iff [OF assms(1), of j "ks ! 0"] assms(2) j z
  have "ks ! j \<noteq> ks ! 0" by simp
  with assms(2) j ne show ?case by (subst split_fwd.simps) simp
next
  case (Suc n)
  then have j: "j < length (filter (\<lambda>x. x = ks ! 0) ks)" by simp
  have ne: "ks \<noteq> []" "0 < length ks" using assms(2) by auto
  have z: "length (filter (\<lambda>x. x < ks ! 0) ks) = 0"
    using no_lt_first [OF assms(1)] assms(2) by (cases ks) auto
  from sorted_nth_eq_iff [OF assms(1), of j "ks ! 0"] assms(2) j z
  have "ks ! j = ks ! 0" by simp
  moreover have "split_fwd ks (j + 1) = Some (length (filter (\<lambda>x. x = ks ! 0) ks))"
    using Suc.hyps(2) j by (intro Suc.hyps(1)) simp_all
  ultimately show ?case using assms(2) j ne by (subst split_fwd.simps) simp
qed

lemma split_point_bounds:
  assumes srt: "sorted ks" and len: "2 \<le> length ks"
  shows "1 \<le> split_point ks" "split_point ks < length ks"
    "ks ! (length ks div 2) \<noteq> ks ! 0 \<Longrightarrow> split_point ks \<le> length ks div 2"
    "ks ! (length ks div 2) = ks ! 0 \<Longrightarrow> length ks div 2 \<le> split_point ks"
proof -
  define m where "m = length ks div 2"
  have nemp: "ks \<noteq> []" "0 < length ks" using len by auto
  define eq where "eq = length (filter (\<lambda>x. x = ks ! 0) ks)"
  have m: "1 \<le> m" "m < length ks" using len by (simp_all add: m_def)
  have z: "length (filter (\<lambda>x. x < ks ! 0) ks) = 0"
    using no_lt_first [OF srt] len by (cases ks) auto
  have run: "(ks ! j = ks ! 0) = (j < eq)" if "j < length ks" for j
    using sorted_nth_eq_iff [OF srt that, of "ks ! 0"] z by (simp add: eq_def)
  have pos: "(ks ! i < ks ! m) = (i < ins_pos (ks ! m) ks)" if "i < length ks" for i
    using sorted_filter_lt_nth [OF srt that, of "ks ! m"] by (simp add: ins_pos_def)
  have eql: "eq \<le> length ks" by (simp add: eq_def)
  have A: "1 \<le> split_point ks \<and> split_point ks < length ks \<and> m \<le> split_point ks"
    if e: "ks ! m = ks ! 0"
  proof (cases "ks ! (length ks - 1) \<noteq> ks ! 0")
    case True
    with run [of "length ks - 1"] len have "eq < length ks" by simp
    moreover from e run [OF m(2)] have "m < eq" by simp
    ultimately show ?thesis using e True m by (simp add: split_point_def m_def [symmetric] eq_def)
  next
    case False
    with e m show ?thesis by (simp add: split_point_def m_def [symmetric])
  qed
  have B: "1 \<le> split_point ks \<and> split_point ks < length ks \<and> split_point ks \<le> m"
    if ne: "ks ! m \<noteq> ks ! 0"
  proof -
    have "ks ! 0 \<le> ks ! m" using m by (intro sorted_nth_mono [OF srt]) simp_all
    with ne have "ks ! 0 < ks ! m" by simp
    with pos [OF nemp(2)] have "0 < ins_pos (ks ! m) ks" by simp
    moreover from pos [OF m(2)] have "ins_pos (ks ! m) ks \<le> m" by simp
    ultimately show ?thesis using ne m by (simp add: split_point_def m_def [symmetric])
  qed
  show "1 \<le> split_point ks" using A B by blast
  show "split_point ks < length ks" using A B by blast
  show "ks ! (length ks div 2) \<noteq> ks ! 0 \<Longrightarrow> split_point ks \<le> length ks div 2"
    using B by (simp add: m_def)
  show "ks ! (length ks div 2) = ks ! 0 \<Longrightarrow> length ks div 2 \<le> split_point ks"
    using A by (simp add: m_def)
qed

lemma split_index_sorted:
  assumes srt: "sorted ks" and len: "2 \<le> length ks"
  shows "split_index ks (length ks) = Some (split_point ks)"
proof -
  define m where "m = length ks div 2"
  have nemp: "ks \<noteq> []" "0 < length ks" using len by auto
  have m: "1 \<le> m" "m < length ks" using len by (simp_all add: m_def)
  have z: "length (filter (\<lambda>x. x < ks ! 0) ks) = 0"
    using no_lt_first [OF srt] len by (cases ks) auto
  have run: "(ks ! j = ks ! 0) = (j < length (filter (\<lambda>x. x = ks ! 0) ks))" if "j < length ks" for j
    using sorted_nth_eq_iff [OF srt that, of "ks ! 0"] z by simp
  show ?thesis
  proof (cases "ks ! m = ks ! 0")
    case False
    with split_back_sorted [OF srt m(2)] m nemp show ?thesis
      by (simp add: split_index_def split_point_def m_def [symmetric])
  next
    case e: True
    show ?thesis
    proof (cases "ks ! (length ks - 1) \<noteq> ks ! 0")
      case True
      with run [of "length ks - 1"] len have l: "length (filter (\<lambda>x. x = ks ! 0) ks) < length ks"
        by simp
      from e run [OF m(2)] have "m \<le> length (filter (\<lambda>x. x = ks ! 0) ks)" by simp
      from split_fwd_sorted [OF srt l this] e True len nemp m show ?thesis
        by (simp add: split_index_def split_point_def m_def [symmetric])
    next
      case False
      with e len nemp m show ?thesis
        by (simp add: split_index_def split_point_def m_def [symmetric])
    qed
  qed
qed

section \<open>Splitting a full root leaf\<close>

lemma split_node_root_nomem:
  assumes lr: "leaf_root s pg" and full: "count (tree_root s) = max_entry_per_node s"
    and cap: "2 \<le> max_entry_per_node s" and room: "room (mm_leaves s) = 0"
  shows "split_node RootRef True s =
     Some (Inl BadAlloc, s\<lparr>tree_root := (tree_root s)\<lparr>count := split_point (p_idx pg)\<rparr>\<rparr>)"
proof -
  have pg: "get_page s (ptr (tree_root s)) = Some pg" using lr by (simp add: leaf_root_def)
  have len: "length (p_idx pg) = max_entry_per_node s" using lr by (simp add: leaf_root_def)
  have srt: "sorted (p_idx pg)" using lr full by (auto simp: leaf_root_def)
  have l2: "2 \<le> length (p_idx pg)" using len cap by simp
  note c = split_index_sorted [OF srt l2, unfolded len]
  show ?thesis
    unfolding split_node_def
    using room
    by (simp add: rd_node_def pg full c wr_node_def alloc_leaf_page_def alloc_def)
qed

lemma split_node_root_ok:
  assumes lr: "leaf_root s pg" and vr: "value_room s pg"
    and full: "count (tree_root s) = max_entry_per_node s"
    and cap: "2 \<le> max_entry_per_node s" and room: "0 < room (mm_leaves s)"
    and r: "ptr (tree_root s) = LeafPage r"
  shows "split_node RootRef True s =
     Some (Inr \<lparr>ptr = LeafPage (length (pages (mm_leaves s))),
                count = max_entry_per_node s - split_point (p_idx pg)\<rparr>,
           s\<lparr>tree_root := (tree_root s)\<lparr>count := split_point (p_idx pg)\<rparr>,
             mm_leaves := (mm_leaves s)
               \<lparr>pages := pages (mm_leaves s) @
                  [\<lparr>p_idx = take (max_entry_per_node s - split_point (p_idx pg)) (p_idx pg) @
                            replicate (split_point (p_idx pg)) 0,
                    p_sub = [],
                    p_val = drop (split_point (p_idx pg) * value_malloc_size s) (p_val pg) @
                            replicate (split_point (p_idx pg) * value_malloc_size s) 0\<rparr>],
                room := room (mm_leaves s) - 1\<rparr>\<rparr>)"
proof -
  define sp where "sp = split_point (p_idx pg)"
  define cp where "cp = max_entry_per_node s"
  define vsz where "vsz = value_malloc_size s"
  have pg: "get_page s (ptr (tree_root s)) = Some pg" using lr by (simp add: leaf_root_def)
  have len: "length (p_idx pg) = cp" "cp \<le> 2147483648"
    using lr by (simp_all add: leaf_root_def cp_def)
  have lb: "length (p_val pg) = cp * vsz" and bound: "cp * vsz < 4294967296"
    using vr by (simp_all add: value_room_def cp_def vsz_def)
  have srt: "sorted (p_idx pg)" using lr full by (auto simp: leaf_root_def)
  have l2: "2 \<le> length (p_idx pg)" using len cap by (simp add: cp_def)
  note c = split_index_sorted [OF srt l2, unfolded len, folded sp_def]
  have spb: "1 \<le> sp" "sp < cp"
    using split_point_bounds(1,2) [OF srt l2] len by (simp_all add: sp_def)
  have u: "u32 (int cp - int sp) = cp - sp"
    using spb len by (simp add: u32_def nat_diff_distrib')
  have rl: "r < length (pages (mm_leaves s))" "pages (mm_leaves s) ! r = pg"
    using pg r by (auto simp: get_page_def rd_def split: if_splits)
  have le1: "sp * vsz \<le> cp * vsz" "(cp - sp) * vsz \<le> cp * vsz"
    using spb by (simp_all add: mult_le_mono1)
  have sum: "sp * vsz + (cp - sp) * vsz = cp * vsz"
    using spb by (simp flip: add_mult_distrib)
  have o: "value_off vsz 0 = 0" "value_off vsz sp = sp * vsz"
    "((cp - sp) * vsz) mod 4294967296 = (cp - sp) * vsz"
  proof -
    from le1 bound have "sp * vsz < 4294967296" "(cp - sp) * vsz < 4294967296" by linarith+
    then show "value_off vsz 0 = 0" "value_off vsz sp = sp * vsz"
      "((cp - sp) * vsz) mod 4294967296 = (cp - sp) * vsz"
      by (simp_all add: value_off_def)
  qed
  have mv: "memmove (replicate (cp * vsz) 0) 0 (p_val pg) (sp * vsz) ((cp - sp) * vsz) =
            Some (drop (sp * vsz) (p_val pg) @ replicate (sp * vsz) 0)"
    using sum le1 lb by (simp add: memmove_def)
  show ?thesis
    unfolding split_node_def
    using room spb rl
    by (simp add: rd_node_def pg full cp_def [symmetric] c wr_node_def alloc_leaf_page_def alloc_def
         sp_def [symmetric] vsz_def [symmetric] u o mv r get_page_def rd_def nth_append
         blank_leaf_def put_page_def len)
       (simp add: memmove_def len)
qed

section \<open>An insert into a full root leaf\<close>

lemma insert_tree_full_nomem:
  assumes lr: "leaf_root s pg" and full: "count (tree_root s) = max_entry_per_node s"
    and cap: "2 \<le> max_entry_per_node s" and room: "room (mm_leaves s) = 0"
  shows "insert_tree idx s =
     Some (Inl BadAlloc, s\<lparr>tree_root := (tree_root s)\<lparr>count := split_point (p_idx pg)\<rparr>\<rparr>)"
proof -
  have d: "tree_depth s = 0" using lr by (simp add: leaf_root_def)
  show ?thesis
    unfolding insert_tree_def d
    by (subst insert_rec.simps)
       (simp add: rd_node_def full split_node_root_nomem [OF lr full cap room])
qed

lemma insert_rec_full_ge:
  assumes lr: "leaf_root s pg" and vr: "value_room s pg"
    and full: "count (tree_root s) = max_entry_per_node s"
    and cap: "2 \<le> max_entry_per_node s" and room: "0 < room (mm_leaves s)"
    and r: "ptr (tree_root s) = LeafPage r" and ge: "p_idx pg ! 0 \<le> idx"
  shows "\<exists>s'. insert_rec idx RootRef 0 s =
           Some (Inr ((LeafPage (length (pages (mm_leaves s))),
                       ins_pos idx (take (max_entry_per_node s - split_point (p_idx pg)) (p_idx pg)) *
                         value_malloc_size s),
                      \<lparr>ptr = LeafPage (length (pages (mm_leaves s))),
                         count = max_entry_per_node s - split_point (p_idx pg) + 1\<rparr>), s') \<and>
           tree_depth s' = 0 \<and>
           tree_root s' = (tree_root s)\<lparr>count := split_point (p_idx pg)\<rparr> \<and>
           mm_nodes s' = mm_nodes s \<and> max_entry_per_node s' = max_entry_per_node s \<and>
           get_page s' (ptr (tree_root s)) = Some pg"
proof -
  define sp where "sp = split_point (p_idx pg)"
  define cp where "cp = max_entry_per_node s"
  define q where "q = length (pages (mm_leaves s))"
  define vsz where "vsz = value_malloc_size s"
  define npg where "npg = \<lparr>p_idx = take (cp - sp) (p_idx pg) @ replicate sp 0, p_sub = [],
     p_val = drop (sp * vsz) (p_val pg) @ replicate (sp * vsz) 0\<rparr>"
  define sA where "sA = s\<lparr>tree_root := (tree_root s)\<lparr>count := sp\<rparr>,
     mm_leaves := (mm_leaves s)\<lparr>pages := pages (mm_leaves s) @ [npg], room := room (mm_leaves s) - 1\<rparr>\<rparr>"
  have d: "tree_depth s = 0" using lr by (simp add: leaf_root_def)
  have pg: "get_page s (ptr (tree_root s)) = Some pg" using lr by (simp add: leaf_root_def)
  have len: "length (p_idx pg) = cp" "cp \<le> 2147483648"
    using lr by (simp_all add: leaf_root_def cp_def)
  have lb: "length (p_val pg) = cp * vsz" and bound: "cp * vsz < 4294967296"
    using vr by (simp_all add: value_room_def cp_def vsz_def)
  have srt: "sorted (p_idx pg)" using lr full by (auto simp: leaf_root_def)
  have l2: "2 \<le> length (p_idx pg)" using len cap by (simp add: cp_def)
  have spb: "1 \<le> sp" "sp < cp"
    using split_point_bounds(1,2) [OF srt l2] len by (simp_all add: sp_def)
  have vA: "value_malloc_size sA = vsz" "max_entry_per_node sA = cp"
    by (simp_all add: sA_def vsz_def cp_def)
  have "sp * vsz \<le> cp * vsz" using spb by (simp add: mult_le_mono1)
  then have lnv: "length (p_val npg) = cp * vsz" using lb by (simp add: npg_def)
  have rl: "r < q" "pages (mm_leaves s) ! r = pg"
    using pg r by (auto simp: get_page_def rd_def q_def split: if_splits)
  have split: "split_node RootRef True s = Some (Inr \<lparr>ptr = LeafPage q, count = cp - sp\<rparr>, sA)"
    using split_node_root_ok [OF lr vr full cap room r]
    by (simp add: sA_def npg_def sp_def cp_def q_def vsz_def)
  have gq: "get_page sA (LeafPage q) = Some npg"
    by (simp add: sA_def get_page_def rd_def q_def)
  have k0: "rd_idx sA (LeafPage q) 0 = Some (p_idx pg ! 0)"
    using spb len by (simp add: rd_idx_def gq npg_def rd_def nth_append)
  have tk: "take (cp - sp) (p_idx npg) = take (cp - sp) (p_idx pg)"
    using len by (simp add: npg_def)
  have put: "leaf_put idx \<lparr>ptr = LeafPage q, count = cp - sp\<rparr> sA =
     Some (ins_pos idx (take (cp - sp) (p_idx pg)),
           put_page sA (LeafPage q) (page_ins vsz idx (cp - sp) npg))"
  proof -
    have "leaf_put idx \<lparr>ptr = LeafPage q, count = cp - sp\<rparr> sA =
      Some (ins_pos idx (take (count \<lparr>ptr = LeafPage q, count = cp - sp\<rparr>) (p_idx npg)),
           put_page sA (ptr \<lparr>ptr = LeafPage q, count = cp - sp\<rparr>)
             (page_ins (value_malloc_size sA) idx (count \<lparr>ptr = LeafPage q, count = cp - sp\<rparr>) npg))"
    proof (rule leaf_put_page_ins)
      show "get_page sA (ptr \<lparr>ptr = LeafPage q, count = cp - sp\<rparr>) = Some npg" using gq by simp
      show "count \<lparr>ptr = LeafPage q, count = cp - sp\<rparr> < length (p_idx npg)"
        using spb len by (simp add: npg_def)
      show "length (p_val npg) = length (p_idx npg) * value_malloc_size sA"
        using spb len lnv by (simp add: npg_def vA)
      show "length (p_idx npg) * value_malloc_size sA < 4294967296"
        using spb len bound by (simp add: npg_def vA)
      show "count \<lparr>ptr = LeafPage q, count = cp - sp\<rparr> \<le> 2147483648" using len by simp
      show "sorted (take (count \<lparr>ptr = LeafPage q, count = cp - sp\<rparr>) (p_idx npg))"
        using srt by (simp add: tk sorted_wrt_take)
    qed
    then show ?thesis by (simp add: tk vA)
  qed
  have m: "Suc (cp - sp) mod 4294967296 = Suc (cp - sp)" using len by simp
  have "ins_pos idx (take (cp - sp) (p_idx pg)) \<le> cp"
    using ins_pos_bound [of idx "take (cp - sp) (p_idx pg)"] len by simp
  then have "ins_pos idx (take (cp - sp) (p_idx pg)) * vsz \<le> cp * vsz"
    by (rule mult_le_mono1)
  with bound have "ins_pos idx (take (cp - sp) (p_idx pg)) * vsz < 4294967296" by linarith
  then have off: "value_off vsz (ins_pos idx (take (cp - sp) (p_idx pg))) =
      ins_pos idx (take (cp - sp) (p_idx pg)) * vsz"
    by (rule value_off_small)
  have gr: "get_page (put_page sA (LeafPage q) pg') (LeafPage r) = Some pg" for pg'
    using rl by (simp add: sA_def get_page_def put_page_def rd_def nth_append q_def nth_list_update)
  show ?thesis
    using ge
    apply (subst insert_rec.simps)
    apply (simp add: rd_node_def full split k0 put node_to_value_def m r gr off
         cp_def [symmetric] sp_def [symmetric] q_def [symmetric] vsz_def [symmetric])
    apply (simp add: sA_def put_page_def d cp_def)
    done
qed

lemma insert_tree_full_ge:
  assumes lr: "leaf_root s pg" and vr: "value_room s pg"
    and full: "count (tree_root s) = max_entry_per_node s"
    and cap: "2 \<le> max_entry_per_node s" and room: "0 < room (mm_leaves s)"
    and r: "ptr (tree_root s) = LeafPage r" and ge: "p_idx pg ! 0 \<le> idx"
  shows "\<exists>s'. insert_tree idx s =
           Some (Inr (LeafPage (length (pages (mm_leaves s))),
                      ins_pos idx (take (max_entry_per_node s - split_point (p_idx pg)) (p_idx pg)) *
                        value_malloc_size s), s') \<and>
           tree_depth s' = 1 \<and>
           tree_root s' = (tree_root s)\<lparr>count := split_point (p_idx pg)\<rparr> \<and>
           mm_nodes s' = mm_nodes s \<and> max_entry_per_node s' = max_entry_per_node s \<and>
           get_page s' (ptr (tree_root s)) = Some pg"
proof -
  have d: "tree_depth s = 0" using lr by (simp add: leaf_root_def)
  from insert_rec_full_ge [OF assms] obtain s' where
    a: "insert_rec idx RootRef 0 s =
           Some (Inr ((LeafPage (length (pages (mm_leaves s))),
                       ins_pos idx (take (max_entry_per_node s - split_point (p_idx pg)) (p_idx pg)) *
                         value_malloc_size s),
                      \<lparr>ptr = LeafPage (length (pages (mm_leaves s))),
                         count = max_entry_per_node s - split_point (p_idx pg) + 1\<rparr>), s')"
    and b: "tree_depth s' = 0" "tree_root s' = (tree_root s)\<lparr>count := split_point (p_idx pg)\<rparr>"
      "mm_nodes s' = mm_nodes s" "max_entry_per_node s' = max_entry_per_node s"
      "get_page s' (ptr (tree_root s)) = Some pg"
    by blast
  from b(5) have "get_page (s'\<lparr>tree_depth := 1\<rparr>) (ptr (tree_root s)) = Some pg"
    by (cases "ptr (tree_root s)") (simp_all add: get_page_def)
  with a b show ?thesis
    unfolding insert_tree_def d by simp
qed

lemma find_rec_leaf_as_node:
  assumes pg: "get_page s p = Some pg" and sub: "p_sub pg = []"
    and srt: "sorted (take cnt (p_idx pg))" and len: "cnt \<le> length (p_idx pg)" "cnt \<le> 2147483648"
    and ge: "0 < cnt" "p_idx pg ! 0 \<le> idx" and d: "0 < depth"
  shows "find_rec idx sub_idx p cnt depth s = None"
proof -
  from binsearch_index_spec [OF srt len, of idx]
  obtain r where r: "binsearch_index idx (p_idx pg) cnt = Some r" and post: "bs_post idx (p_idx pg) cnt r"
    by blast
  have r0: "0 \<le> r"
  proof (rule ccontr)
    assume "\<not> 0 \<le> r"
    with post have "r = - 1" by (simp add: bs_post_def)
    with post ge(1) have "\<not> (p_idx pg ! 0 < idx) \<and> p_idx pg ! 0 \<noteq> idx"
      by (auto simp: bs_post_def split: if_splits)
    with ge(2) show False by simp
  qed
  moreover from post have "r < int cnt" by (simp add: bs_post_def)
  ultimately have rc: "nat r < cnt" by linarith
  with len have rl: "nat r < length (p_idx pg)" by simp
  have run: "find_run idx sub_idx p cnt (depth - 1) (nat r) s = None" if "p_idx pg ! nat r = idx"
    using that rc rl by (subst find_run.simps) (simp add: pg sub rd_def)
  show ?thesis
    using r0 rl d run
    by (subst find_rec.simps) (simp add: pg r sub rd_def)
qed


text \<open>
  Once the depth is positive and the root descriptor still points to a leaf page,
  \<^verbatim>\<open>insert_rec\<close> takes the child descriptor \<^verbatim>\<open>node_to_subnode( curnode->ptr, i )\<close> out of the
  values of that leaf: no insert has a defined result.
\<close>

lemma insert_rec_no_subnode:
  "get_page s p = Some pg \<Longrightarrow> p_sub pg = [] \<Longrightarrow> insert_rec idx (SubRef p i) d s = None"
  by (subst insert_rec.simps) (simp add: rd_node_def)

lemma insert_tree_leaf_as_node:
  assumes "0 < tree_depth s" "get_page s (ptr (tree_root s)) = Some pg" "p_sub pg = []"
  shows "insert_tree idx s = None"
  unfolding insert_tree_def
  using assms
  by (subst insert_rec.simps)
     (auto simp: rd_node_def insert_rec_no_subnode split: Option.bind_splits)

section \<open>Ascending inserts\<close>

lemma unat_word_of_nat_64:
  "j < 18446744073709551616 \<Longrightarrow> unat (word_of_nat j :: 64 word) = j"
  by (simp add: unat_of_nat take_bit_nat_eq_self)

lemma ins_pos_append: "ins_pos v (xs @ ys) = ins_pos v xs + ins_pos v ys"
  by (simp add: ins_pos_def)

lemma ins_pos_asc:
  "b \<le> 18446744073709551616 \<Longrightarrow>
   ins_pos v (map word_of_nat [a..<b]) = min b (unat (v :: 64 word)) - a"
proof (induction b)
  case 0
  then show ?case by (simp add: ins_pos_def)
next
  case (Suc b)
  then have b: "b < 18446744073709551616" by simp
  have lt: "((word_of_nat b :: 64 word) < v) = (b < unat v)"
    by (simp add: word_less_nat_alt unat_word_of_nat_64 [OF b])
  show ?case
  proof (cases "a \<le> b")
    case True
    with Suc lt show ?thesis by (auto simp: ins_pos_append) (simp_all add: ins_pos_def)
  next
    case False
    then show ?thesis by (simp add: ins_pos_def)
  qed
qed

lemma model_run_append:
  "model_run ks vs (A @ B) =
     (fst (model_run ks vs A) @
        fst (model_run (fst (snd (model_run ks vs A))) (snd (snd (model_run ks vs A))) B),
      snd (model_run (fst (snd (model_run ks vs A))) (snd (snd (model_run ks vs A))) B))"
  by (induction A arbitrary: ks vs) (simp_all add: split_beta)

lemma one_slot_append:
  "one_slot ks (A @ B) = (one_slot ks A \<and> one_slot (fst (snd (model_run ks vs A))) B)"
proof (induction A arbitrary: ks vs)
  case Nil
  then show ?case by simp
next
  case (Cons kv A)
  show ?case
    using Cons [of "take (ins_pos (fst kv) ks) ks @ fst kv # drop (ins_pos (fst kv) ks) ks"
                   "take (ins_pos (fst kv) ks) vs @ snd kv # drop (ins_pos (fst kv) ks) vs"]
    by (simp add: split_beta)
qed

lemma run_asc:
  assumes "b < 18446744073709551616"
  shows "\<forall>x\<in>set ks. x < word_of_nat a \<Longrightarrow> length vs = length ks \<Longrightarrow>
         one_slot ks (asc a b) \<and>
         snd (model_run ks vs (asc a b)) = (ks @ map word_of_nat [a..<b], vs @ replicate (b - a) [0])"
proof (induction "b - a" arbitrary: a ks vs)
  case 0
  then show ?case by (simp add: asc_def)
next
  case (Suc n)
  then have ab: "a < b" by simp
  have pos: "ins_pos (word_of_nat a) ks = length ks"
    using Suc.prems(1) by (simp add: ins_pos_def)
  have step: "asc a b = (word_of_nat a, [0]) # asc (Suc a) b"
    using ab by (simp add: asc_def upt_conv_Cons)
  have "(word_of_nat a :: 64 word) < word_of_nat (Suc a)"
    using ab assms by (intro word_of_nat_less) simp_all
  with Suc.prems(1) have all: "\<forall>x\<in>set (ks @ [word_of_nat a]). x < word_of_nat (Suc a)"
    by auto
  have n: "n = b - Suc a" using Suc.hyps(2) by simp
  have len: "length (vs @ [[0 :: 8 word]]) = length (ks @ [word_of_nat a :: 64 word])"
    using Suc.prems(2) by simp
  from Suc.hyps(1) [OF n all len] ab Suc.prems(2) show ?case
    by (simp add: step pos split_beta upt_conv_Cons replicate_app_Cons_same)
       (metis Suc_diff_Suc replicate_Suc)
qed

lemma sorted_asc_keys:
  "b \<le> 18446744073709551616 \<Longrightarrow> sorted (map word_of_nat [a..<b] :: 64 word list)"
proof (induction b)
  case 0
  then show ?case by simp
next
  case (Suc b)
  have "(word_of_nat j :: 64 word) \<le> word_of_nat b" if "j < b" for j
    using word_of_nat_less [of j b] that Suc.prems by simp
  with Suc show ?case by (auto simp: sorted_append)
qed


section \<open>A root leaf filled in ascending order\<close>

lemma asc_sized: "list_all (\<lambda>kv. length (snd kv) = 1) (asc a b)"
  by (simp add: asc_def list_all_iff)

lemma asc_run_state:
  assumes st: "leaf_state s0 [] []" and n: "n \<le> max_entry_per_node s0" "n < 18446744073709551616"
    and v1: "value_malloc_size s0 = 1"
  shows "\<exists>s. tree_after (asc 0 n) s0 = Some s \<and>
             leaf_state s (map word_of_nat [0..<n]) (replicate n [0]) \<and> same_frame s0 s"
proof -
  from run_asc [OF n(2), of "[]" 0 "[]"]
  have os: "one_slot [] (asc 0 n)"
    and run: "snd (model_run [] [] (asc 0 n)) = (map word_of_nat [0..<n], replicate n [0])"
    by simp_all
  have len: "length ([] :: t_idx list) + length (asc 0 n) \<le> max_entry_per_node s0"
    using n by (simp add: asc_def)
  have sz: "list_all (\<lambda>kv. length (snd kv) = value_malloc_size s0) (asc 0 n)"
    using asc_sized [of 0 n] by (simp add: v1)
  from insert_all_one_slot [OF st os len sz] run show ?thesis
    by (auto simp: tree_after_def simp del: insert_all.simps model_run.simps)
qed

lemma full_asc_page:
  assumes st: "leaf_state s (map word_of_nat [0..<512]) vs" and cap: "max_entry_per_node s = 512"
  shows "\<exists>pg r. leaf_root s pg \<and> ptr (tree_root s) = LeafPage r \<and> count (tree_root s) = 512 \<and>
           p_idx pg = map word_of_nat [0..<512] \<and> p_sub pg = [] \<and> value_room s pg"
  using st cap by (auto simp: leaf_state_def leaf_root_def)

lemma split_point_asc: "split_point (map word_of_nat [0..<512] :: 64 word list) = 256"
proof -
  have "ins_pos (256 :: 64 word) (map word_of_nat [0..<512]) = 256"
    by (subst ins_pos_asc) simp_all
  then show ?thesis by (simp add: split_point_def)
qed


lemma find_tree_leaf_as_node:
  assumes pg: "get_page s (ptr (tree_root s)) = Some pg" and sub: "p_sub pg = []"
    and srt: "sorted (take (count (tree_root s)) (p_idx pg))"
    and len: "count (tree_root s) \<le> length (p_idx pg)" "count (tree_root s) \<le> 2147483648"
    and ge: "0 < count (tree_root s)" "p_idx pg ! 0 \<le> idx" and d: "0 < tree_depth s"
  shows "find_tree idx sub_idx s = None"
  unfolding find_tree_def by (simp add: find_rec_leaf_as_node [OF pg sub srt len ge d])


section \<open>The full root leaf as a state\<close>

lemma tight_tree_new: "page_tree_new 1 8 1 = Inr tight_tree"
  by (simp add: page_tree_new_def alloc_leaf_page_def alloc_def tight_tree_def)

lemma tight_tree_state: "leaf_state tight_tree [] []"
  by (simp add: leaf_state_def leaf_root_def value_room_def values_of_def tight_tree_def
        get_page_def blank_leaf_def)

lemma word_of_nat_eq_iff_64:
  "j < 18446744073709551616 \<Longrightarrow> ((word_of_nat j :: 64 word) = v) = (j = unat v)"
  using unat_word_of_nat_64 [of j] by auto

lemma count_eq_asc:
  "b \<le> 18446744073709551616 \<Longrightarrow>
   length (filter (\<lambda>x. x = v) (map word_of_nat [a..<b] :: 64 word list)) =
     (if a \<le> unat v \<and> unat v < b then 1 else 0)"
proof (induction b)
  case 0
  then show ?case by simp
next
  case (Suc b)
  then have b: "b < 18446744073709551616" by simp
  show ?case
  proof (cases "a \<le> b")
    case True
    with Suc word_of_nat_eq_iff_64 [OF b, of v] show ?thesis by auto
  next
    case False
    then show ?thesis by simp
  qed
qed

lemma full_tree_root: "leaf_root (full_tree rm) full_page"
  by (simp add: leaf_root_def full_tree_def full_page_def get_page_def sorted_asc_keys)

lemma byte_values:
  "n \<le> length b \<Longrightarrow> values_of 1 b n = map (\<lambda>x. [x]) (take n b)"
proof (rule nth_equalityI)
  assume n: "n \<le> length b"
  then show "length (values_of 1 b n) = length (map (\<lambda>x. [x]) (take n b))" by simp
  fix i assume "i < length (values_of 1 b n)"
  then have i: "i < n" by simp
  with n have "drop i b = b ! i # drop (Suc i) b" by (simp add: Cons_nth_drop_Suc)
  with i n show "values_of 1 b n ! i = map (\<lambda>x. [x]) (take n b) ! i"
    by (simp add: value_at_def)
qed

lemma full_tree_room: "value_room (full_tree rm) full_page"
  by (simp add: value_room_def full_tree_def full_page_def)

lemma full_tree_state: "leaf_state (full_tree rm) (map word_of_nat [0..<512]) (replicate 512 [0])"
  unfolding leaf_state_def
  by (rule exI [of _ full_page], rule exI [of _ 0])
     (simp add: full_tree_root full_tree_room,
      simp add: full_tree_def full_page_def byte_values [unfolded One_nat_def] map_replicate)

lemma asc_reaches_full_tree:
  assumes st: "leaf_state s (map word_of_nat [0..<512]) (replicate 512 [0])"
    and fr: "same_frame s0 s"
    and s0: "value_malloc_size s0 = 1" "mm_nodes s0 = \<lparr>pages = [], room = 8\<rparr>"
      "room (mm_leaves s0) = rm" "length (pages (mm_leaves s0)) = 1"
      "max_entry_per_node s0 = 512" "ptr (tree_root s0) = LeafPage 0"
  shows "s = full_tree rm"
proof -
  from st obtain pg r where lr: "leaf_root s pg" and r: "ptr (tree_root s) = LeafPage r"
    and c: "count (tree_root s) = 512"
    and pk: "p_idx pg = map word_of_nat [0..<512] @ replicate (max_entry_per_node s - 512) 0"
    and vr: "value_room s pg"
    and pv: "values_of (value_malloc_size s) (p_val pg) 512 = replicate 512 [0]"
    and ps: "p_sub pg = []"
    by (auto simp: leaf_state_def)
  from fr s0 have f: "ptr (tree_root s) = LeafPage 0" "mm_nodes s = \<lparr>pages = [], room = 8\<rparr>"
    "max_entry_per_node s = 512" "value_malloc_size s = 1" "room (mm_leaves s) = rm"
    "length (pages (mm_leaves s)) = 1"
    by (simp_all add: same_frame_def)
  from lr f have d: "tree_depth s = 0" and g: "get_page s (LeafPage 0) = Some pg"
    by (simp_all add: leaf_root_def)
  from vr f have lv: "length (p_val pg) = 512" by (simp add: value_room_def)
  from pv f lv have "map (\<lambda>x. [x]) (p_val pg) = map (\<lambda>x. [x]) (replicate 512 (0 :: 8 word))"
    by (simp add: byte_values [unfolded One_nat_def] map_replicate)
  then have pb: "p_val pg = replicate 512 0"
    by (simp add: inj_on_def del: map_replicate)
  from g f(6) have p0: "pages (mm_leaves s) = [pg]"
    by (cases "pages (mm_leaves s)") (auto simp: get_page_def rd_def)
  have pg: "pg = full_page"
    using pk pb ps f(3) by (cases pg) (simp add: full_page_def)
  have root: "tree_root s = \<lparr>ptr = LeafPage 0, count = 512\<rparr>"
    using f(1) c by (cases "tree_root s") simp
  have leaves: "mm_leaves s = \<lparr>pages = [full_page], room = rm\<rparr>"
    using p0 pg f(5) by (cases "mm_leaves s") simp
  show ?thesis
    using root leaves f d by (cases s) (simp add: full_tree_def)
qed

lemma tree_after_full:
  "tree_after (asc 0 512) fresh_tree = Some (full_tree 8)"
  "tree_after (asc 0 512) tight_tree = Some (full_tree 0)"
proof -
  from asc_run_state [OF fresh_tree_state, of 512]
  obtain s where t: "tree_after (asc 0 512) fresh_tree = Some s"
    and st: "leaf_state s (map word_of_nat [0..<512]) (replicate 512 [0])"
    and fr: "same_frame fresh_tree s"
    by (auto simp: fresh_tree_def)
  have "s = full_tree 8"
    by (rule asc_reaches_full_tree [OF st fr]) (simp_all add: fresh_tree_def)
  with t show "tree_after (asc 0 512) fresh_tree = Some (full_tree 8)" by simp
  from asc_run_state [OF tight_tree_state, of 512]
  obtain s where t: "tree_after (asc 0 512) tight_tree = Some s"
    and st: "leaf_state s (map word_of_nat [0..<512]) (replicate 512 [0])"
    and fr: "same_frame tight_tree s"
    by (auto simp: tight_tree_def)
  have "s = full_tree 0"
    by (rule asc_reaches_full_tree [OF st fr]) (simp_all add: tight_tree_def blank_leaf_def)
  with t show "tree_after (asc 0 512) tight_tree = Some (full_tree 0)" by simp
qed


lemma full_tree_fields [simp]:
  "count (tree_root (full_tree rm)) = 512" "max_entry_per_node (full_tree rm) = 512"
  "room (mm_leaves (full_tree rm)) = rm" "ptr (tree_root (full_tree rm)) = LeafPage 0"
  "tree_root (full_tree rm) = \<lparr>ptr = LeafPage 0, count = 512\<rparr>"
  "p_idx full_page = map word_of_nat [0..<512]"
  by (simp_all add: full_tree_def full_page_def)

lemma full_tree_nomem:
  "insert_tree idx (full_tree 0) =
     Some (Inl BadAlloc, (full_tree 0)\<lparr>tree_root := \<lparr>ptr = LeafPage 0, count = 256\<rparr>\<rparr>)"
  using insert_tree_full_nomem [OF full_tree_root, of 0 idx] by (simp add: split_point_asc)


section \<open>The claims\<close>





text \<open>
  Claim C2 fails on the code. The two \<^verbatim>\<open>memmove\<close>s of lines 266 and 267 move one index
  and one value, not every later one. After the inserts 3, 5, 7 and then 4 into a new tree
  the first four indexes of the root page are 3, 4, 5 and the 0 the arena left in the
  fourth slot: 5 was moved over 7, which is lost, and the array is not non-decreasing.
\<close>

theorem one_slot_shift_loses_key:
  "keys_after [(3, [65]), (5, [66]), (7, [67]), (4, [68])] fresh_tree = Some [3, 4, 5, 0]"
proof -
  have os: "one_slot [] [(3, [65]), (5, [66]), (7, [67])]" by (simp add: ins_pos_def)
  have m: "snd (model_run [] [] [(3, [65]), (5, [66]), (7, [67])]) = ([3, 5, 7], [[65], [66], [67]])"
    by (simp add: ins_pos_def)
  have len: "length ([] :: t_idx list) + length [(3 :: t_idx, [65 :: 8 word]), (5, [66]), (7, [67])]
             \<le> max_entry_per_node fresh_tree"
    by simp
  have sz: "list_all (\<lambda>kv. length (snd kv) = value_malloc_size fresh_tree)
              [(3 :: t_idx, [65 :: 8 word]), (5, [66]), (7, [67])]"
    by (simp add: fresh_tree_def)
  from insert_all_one_slot [OF fresh_tree_state os len sz] obtain hs s3 where
    a: "insert_all [(3, [65]), (5, [66]), (7, [67])] fresh_tree = Some (hs, s3)"
      "leaf_state s3 (fst (snd (model_run [] [] [(3, [65]), (5, [66]), (7, [67])])))
                     (snd (snd (model_run [] [] [(3, [65]), (5, [66]), (7, [67])])))"
      "same_frame fresh_tree s3"
    by blast
  from a(2) have st: "leaf_state s3 [3, 5, 7] [[65], [66], [67]]" by (simp only: m fst_conv snd_conv)
  have room: "length [3, 5, 7 :: t_idx] < max_entry_per_node s3"
    using a(3) by (simp add: same_frame_def)
  have v3: "value_malloc_size s3 = 1" using a(3) by (simp add: same_frame_def fresh_tree_def)
  have l68: "length [68 :: 8 word] = value_malloc_size s3" by (simp add: v3)
  from insert_store_keys [OF st room l68, of 4] obtain s4 s5 where
    b: "insert_tree 4 s3 = Some (Inr (ptr (tree_root s3), ins_pos 4 [3, 5, 7]), s4)"
      "store_value (ptr (tree_root s3), ins_pos 4 [3, 5, 7]) [68] s4 = Some s5"
      "leaf_keys s5 = [3, 4, 5, 0]"
    by (auto simp: ins_pos_def v3)
  have "insert_all ([(3, [65]), (5, [66]), (7, [67])] @ [(4, [68])]) fresh_tree =
          Some (hs @ [(ptr (tree_root s3), ins_pos 4 [3, 5, 7])], s5)"
    unfolding insert_all_append a(1) using b(1,2) by simp
  then show ?thesis using b(3) by (simp add: keys_after_def del: insert_all.simps)
qed


text \<open>
  Claim C3 fails on the code. \<^verbatim>\<open>insert\<close> increments the depth when the root was split and
  does nothing else: no page is allocated for a new root and \<^verbatim>\<open>tree_root\<close> still points to
  the old page. After the inserts 0, 1, ... 511 into a new tree, the insert of 512 returns
  slot 256 of the new leaf page 1 and leaves the depth at 1, the root descriptor at leaf
  page 0 with 256 entries and no interior page allocated; \<^verbatim>\<open>find\<close> of 512 then reads a child
  descriptor in a leaf page and has no defined result.
\<close>

theorem root_split_not_wrapped:
  "Option.bind (tree_after (asc 0 512) fresh_tree) (insert_outcome 512) =
     Some ((LeafPage 1, 256), 1, \<lparr>ptr = LeafPage 0, count = 256\<rparr>, 0, None)"
proof -
  from asc_run_state [OF fresh_tree_state, of 512]
  obtain s where t: "tree_after (asc 0 512) fresh_tree = Some s"
    and st: "leaf_state s (map word_of_nat [0..<512]) (replicate 512 [0])"
    and fr: "same_frame fresh_tree s"
    by (auto simp: fresh_tree_def)
  from fr have cap: "max_entry_per_node s = 512" and room: "0 < room (mm_leaves s)"
    and r0: "ptr (tree_root s) = LeafPage 0" and np: "pages (mm_nodes s) = []"
    and lp: "length (pages (mm_leaves s)) = 1" and v1: "value_malloc_size s = 1"
    by (simp_all add: same_frame_def fresh_tree_def)
  from full_asc_page [OF st cap] r0 obtain pg where lr: "leaf_root s pg"
    and c: "count (tree_root s) = 512"
    and pk: "p_idx pg = map word_of_nat [0..<512]" and ps: "p_sub pg = []"
    and vr: "value_room s pg"
    by auto
  have full: "count (tree_root s) = max_entry_per_node s" using c cap by simp
  have cap2: "2 \<le> max_entry_per_node s" using cap by simp
  have ge: "p_idx pg ! 0 \<le> 512" by (simp add: pk)
  have pos: "ins_pos (512 :: 64 word) (map word_of_nat [0..<256]) = 256"
    by (subst ins_pos_asc) simp_all
  from insert_tree_full_ge [OF lr vr full cap2 room r0 ge]
  obtain s' where ins: "insert_tree 512 s = Some (Inr (LeafPage 1, 256), s')"
    and d: "tree_depth s' = 1" and root: "tree_root s' = (tree_root s)\<lparr>count := 256\<rparr>"
    and nodes: "mm_nodes s' = mm_nodes s" and pg': "get_page s' (LeafPage 0) = Some pg"
    by (auto simp: pk split_point_asc cap lp take_map pos r0 v1)
  have root': "tree_root s' = \<lparr>ptr = LeafPage 0, count = 256\<rparr>"
    using root r0 by (cases "tree_root s") simp
  have "find_tree 512 0 s' = None"
    by (rule find_tree_leaf_as_node [where pg = pg])
       (simp_all add: root' pg' ps pk d take_map sorted_asc_keys)
  with ins d root' nodes np have "insert_outcome 512 s =
      Some ((LeafPage 1, 256), 1, \<lparr>ptr = LeafPage 0, count = 256\<rparr>, 0, None)"
    by (simp add: insert_outcome_def)
  with t show ?thesis by simp
qed

text \<open>
  Claim C5 fails on the code. Line 229 of \<^verbatim>\<open>split_node\<close> copies the indexes of the new page
  from the start of the old page, while lines 233 and 235 copy the values and the child
  descriptors from the split index. After the inserts 0, 1, ... 511 into a new tree the root
  leaf is full; \<^verbatim>\<open>split_node\<close> cuts it at 256, and both pages then hold the indexes
  0, 1, ... 255: every index of the lower page is in both, and the indexes 256, ... 511 are
  in neither.
\<close>

theorem split_copies_first_keys:
  "Option.bind (tree_after (asc 0 512) fresh_tree) split_halves =
     Some (map word_of_nat [0..<256], map word_of_nat [0..<256])"
proof -
  from asc_run_state [OF fresh_tree_state, of 512]
  obtain s where t: "tree_after (asc 0 512) fresh_tree = Some s"
    and st: "leaf_state s (map word_of_nat [0..<512]) (replicate 512 [0])"
    and fr: "same_frame fresh_tree s"
    by (auto simp: fresh_tree_def)
  from fr have cap: "max_entry_per_node s = 512" and room: "0 < room (mm_leaves s)"
    by (simp_all add: same_frame_def)
  from full_asc_page [OF st cap] obtain pg r where lr: "leaf_root s pg"
    and r: "ptr (tree_root s) = LeafPage r" and c: "count (tree_root s) = 512"
    and pk: "p_idx pg = map word_of_nat [0..<512]" and vr: "value_room s pg"
    by blast
  have full: "count (tree_root s) = max_entry_per_node s" using c cap by simp
  have cap2: "2 \<le> max_entry_per_node s" using cap by simp
  have pg: "get_page s (LeafPage r) = Some pg" using lr r by (simp add: leaf_root_def)
  then have rl: "r < length (pages (mm_leaves s))" "pages (mm_leaves s) ! r = pg"
    by (auto simp: get_page_def rd_def split: if_splits)
  have "split_halves s = Some (map word_of_nat [0..<256], map word_of_nat [0..<256])"
    unfolding split_halves_def split_node_root_ok [OF lr vr full cap2 room r]
    using rl
    by (simp add: node_keys_def get_page_def rd_def r nth_append pk split_point_asc cap take_map)
  with t show ?thesis by simp
qed




text \<open>
  Claim C7 (amended). For an array whose first \<open>cnt\<close> entries are sorted, with
  \<open>cnt\<close> at most \<open>2^31\<close>, \<^verbatim>\<open>binsearch_index\<close> returns a position between \<open>-1\<close> and
  \<open>cnt - 1\<close>. When the target occurs among the entries, it is the first index of the run of
  the target. When it does not occur, it is the last index whose key is below the target
  (the last occurrence of the largest smaller key, not the first), and it is \<open>-1\<close> exactly
  when the target is smaller than every key.
\<close>

theorem binsearch_index_result:
  assumes "sorted (take cnt ary)" "cnt \<le> length ary" "cnt \<le> 2147483648"
  shows "\<exists>r. binsearch_index v ary cnt = Some r \<and> - 1 \<le> r \<and> r < int cnt \<and>
           (v \<in> set (take cnt ary) \<longrightarrow>
              0 \<le> r \<and> ary ! nat r = v \<and> (\<forall>j<nat r. ary ! j < v)) \<and>
           (v \<notin> set (take cnt ary) \<longrightarrow>
              (\<forall>j<cnt. (ary ! j < v) = (int j \<le> r)) \<and>
              (r = - 1) = (\<forall>j<cnt. v < ary ! j))"
proof -
  from binsearch_index_spec [OF assms]
  obtain r where r: "binsearch_index v ary cnt = Some r" "bs_post v ary cnt r" by blast
  have mem: "v \<in> set (take cnt ary) \<longleftrightarrow> (\<exists>j<cnt. ary ! j = v)"
    using assms(2) by (auto simp: in_set_conv_nth)
  have a: "- 1 \<le> r" "r < int cnt" using r(2) by (simp_all add: bs_post_def)
  have b: "0 \<le> r \<and> ary ! nat r = v \<and> (\<forall>j<nat r. ary ! j < v)" if "v \<in> set (take cnt ary)"
  proof -
    from that mem have ex: "\<exists>j<cnt. ary ! j = v" by simp
    with r(2) have p: "0 \<le> r" "ary ! nat r = v" "\<forall>j<cnt. (ary ! j < v) = (int j < r)"
      unfolding bs_post_def by simp_all
    have "\<forall>j<nat r. ary ! j < v"
    proof (intro allI impI)
      fix j assume "j < nat r"
      with a p(1) have "j < cnt" "int j < r" by auto
      with p(3) show "ary ! j < v" by simp
    qed
    with p show ?thesis by simp
  qed
  have c: "(\<forall>j<cnt. (ary ! j < v) = (int j \<le> r)) \<and> (r = - 1) = (\<forall>j<cnt. v < ary ! j)"
    if "v \<notin> set (take cnt ary)"
  proof -
    from that mem have nex: "\<not> (\<exists>j<cnt. ary ! j = v)" by simp
    with r(2) have p: "\<forall>j<cnt. (ary ! j < v) = (int j \<le> r)"
      unfolding bs_post_def by simp
    have "(r = - 1) = (\<forall>j<cnt. v < ary ! j)"
    proof
      assume r1: "r = - 1"
      show "\<forall>j<cnt. v < ary ! j"
      proof (intro allI impI)
        fix j assume j: "j < cnt"
        with p r1 have "\<not> ary ! j < v" by simp
        moreover from nex j have "ary ! j \<noteq> v" by simp
        ultimately show "v < ary ! j" by simp
      qed
    next
      assume all: "\<forall>j<cnt. v < ary ! j"
      show "r = - 1"
      proof (rule ccontr)
        assume "r \<noteq> - 1"
        with a have r0: "0 \<le> r" "nat r < cnt" by simp_all
        with p have "ary ! nat r < v" by simp
        moreover from all r0 have "v < ary ! nat r" by simp
        ultimately show False by simp
      qed
    qed
    with p show ?thesis by simp
  qed
  from r(1) a b c show ?thesis by blast
qed

theorem binsearch_index_result_witness:
  "sorted (take 4 [1, 3, 3, 7 :: t_idx]) \<and> (4::nat) \<le> length [1, 3, 3, 7 :: t_idx] \<and>
   (4::nat) \<le> 2147483648 \<and> (3 :: t_idx) \<in> set (take 4 [1, 3, 3, 7]) \<and>
   (\<exists>r. binsearch_index 3 [1, 3, 3, 7] 4 = Some r \<and> 0 \<le> r \<and>
        [1, 3, 3, 7 :: t_idx] ! nat r = 3 \<and> (\<forall>j<nat r. [1, 3, 3, 7 :: t_idx] ! j < 3))"
proof -
  have h: "sorted (take 4 [1, 3, 3, 7 :: t_idx])" "(4::nat) \<le> length [1, 3, 3, 7 :: t_idx]"
    "(4::nat) \<le> 2147483648" "(3 :: t_idx) \<in> set (take 4 [1, 3, 3, 7])"
    by simp_all
  from binsearch_index_result [OF h(1,2,3), of 3] h show ?thesis by blast
qed

text \<open>
  Claim C7 as stated fails: in the sorted array \<open>[1, 1]\<close> the largest key that is at most
  \<open>2\<close> is \<open>1\<close>, its first occurrence is at index \<open>0\<close>, and the search returns \<open>1\<close>.
\<close>

theorem binsearch_index_not_first_counterexample:
  "sorted (take 2 [1, 1 :: t_idx]) \<and> binsearch_index 2 [1, 1] 2 = Some 1 \<and>
   \<not> first_of_largest_le 2 [1, 1] 2 1"
proof -
  have "binsearch_index 2 [1, 1] 2 = Some 1"
    by (simp add: binsearch_index_def binsearch_loop.simps)
  moreover have "\<not> first_of_largest_le 2 [1, 1] 2 1"
    unfolding first_of_largest_le_def by auto
  ultimately show ?thesis by simp
qed


text \<open>
  Claim C9 (amended). When an insert into a tree that is one full sorted leaf fails because
  the leaf arena cannot allocate the sibling page, \<^verbatim>\<open>insert\<close> fails with \<^verbatim>\<open>bad_alloc\<close>, and
  every page, both arenas, the root's page pointer and the depth are as before the call; the
  root's count is not: \<^verbatim>\<open>split_node\<close> writes the counts (lines 221 and 222) before it
  allocates (lines 223 to 226), so the count is already cut to the split point, which is at
  least 1 and below the capacity, and the entries from the split point on are no longer
  valid entries.
\<close>

theorem insert_nomem_cuts_count:
  assumes "leaf_root s pg" and "count (tree_root s) = max_entry_per_node s"
    and "2 \<le> max_entry_per_node s" and "room (mm_leaves s) = 0"
  shows "insert_tree idx s =
           Some (Inl BadAlloc, s\<lparr>tree_root := (tree_root s)\<lparr>count := split_point (p_idx pg)\<rparr>\<rparr>) \<and>
         1 \<le> split_point (p_idx pg) \<and> split_point (p_idx pg) < max_entry_per_node s"
proof -
  have len: "length (p_idx pg) = max_entry_per_node s" using assms(1) by (simp add: leaf_root_def)
  have srt: "sorted (p_idx pg)" using assms(1,2) by (auto simp: leaf_root_def)
  have l2: "2 \<le> length (p_idx pg)" using len assms(3) by simp
  from split_point_bounds(1,2) [OF srt l2] len insert_tree_full_nomem [OF assms]
  show ?thesis by simp
qed

theorem insert_nomem_cuts_count_witness:
  "leaf_root (full_tree 0) full_page \<and>
   count (tree_root (full_tree 0)) = max_entry_per_node (full_tree 0) \<and>
   2 \<le> max_entry_per_node (full_tree 0) \<and> room (mm_leaves (full_tree 0)) = 0 \<and>
   insert_tree 512 (full_tree 0) =
     Some (Inl BadAlloc, (full_tree 0)\<lparr>tree_root := \<lparr>ptr = LeafPage 0, count = 256\<rparr>\<rparr>)"
  using insert_nomem_cuts_count [OF full_tree_root, of 0 512] full_tree_root [of 0]
  by (simp add: split_point_asc)

text \<open>
  Claim C9 as stated fails: after the inserts 0, 1, ... 511 into a new tree whose leaf arena
  has no room left, the insert of 512 fails with \<^verbatim>\<open>bad_alloc\<close> and the root count has gone
  from 512 to 256; \<^verbatim>\<open>find(300, 0)\<close> returned slot 300 before the call and returns null
  after it.
\<close>

theorem failed_insert_changes_tree:
  "Option.bind (tree_after (asc 0 512) tight_tree) (insert_failure 512 300) =
     Some (BadAlloc, 512, 256, Some (Some (LeafPage 0, 300)), Some None)"
proof -
  define s' where "s' = (full_tree 0)\<lparr>tree_root := \<lparr>ptr = LeafPage 0, count = 256\<rparr>\<rparr>"
  have cnt: "length (filter (\<lambda>x. x = 300) (map word_of_nat [0..<512] :: 64 word list)) = 1"
    by (subst count_eq_asc) simp_all
  have cnt': "length (filter (\<lambda>x. x = 300) (map word_of_nat [0..<256] :: 64 word list)) = 0"
    by (subst count_eq_asc) simp_all
  have pos: "ins_pos (300 :: 64 word) (map word_of_nat [0..<512]) = 300"
    by (subst ins_pos_asc) simp_all
  have before: "find_tree 300 0 (full_tree 0) = Some (Some (LeafPage 0, 300), full_tree 0)"
    using leaf_state_find [OF full_tree_state, where occ = 0 and k = 300 and rm1 = 0, unfolded cnt pos]
    by (simp add: full_tree_def)
  have lr': "leaf_root s' full_page"
    using full_tree_root [of 0]
    by (simp add: leaf_root_def s'_def full_tree_def full_page_def get_page_def take_map sorted_asc_keys)
  have tk: "take (count (tree_root s')) (p_idx full_page) = map word_of_nat [0..<256]"
    by (simp add: s'_def take_map)
  have after: "find_tree 300 0 s' = Some (None, s')"
    using find_tree_leaf_root [OF lr', where occ = 0 and k = 300, unfolded tk cnt']
    by simp
  have "insert_failure 512 300 (full_tree 0) =
      Some (BadAlloc, 512, 256, Some (Some (LeafPage 0, 300)), Some None)"
    using before after by (simp add: insert_failure_def full_tree_nomem s'_def)
  then show ?thesis by (simp add: tree_after_full)
qed

text \<open>
  Claim C10. A call of \<^verbatim>\<open>find\<close> that returns leaves the whole state as it was: the pages
  of both arenas with their indexes, values, child descriptors and counts, and the tree
  handle (root pointer, root count and depth). A second call with the same arguments then
  returns the same result.
\<close>

theorem find_tree_frame:
  "find_tree idx sub_idx s = Some (r, s') \<Longrightarrow> s' = s \<and> find_tree idx sub_idx s' = Some (r, s')"
proof -
  assume a: "find_tree idx sub_idx s = Some (r, s')"
  then obtain res where
    res: "find_rec idx sub_idx (ptr (tree_root s)) (count (tree_root s)) (tree_depth s) s = Some res"
      "r = fst res" "s' = snd (snd res)"
    by (auto simp: find_tree_def split: Option.bind_splits)
  from find_rec_state(1) [OF res(1)] res(3) have "s' = s" by simp
  with a show ?thesis by simp
qed

theorem find_tree_frame_witness:
  "find_tree 5 1 example_leaf = Some (Some (LeafPage 0, 2), example_leaf)"
  using find_tree_frame [OF example_leaf_find] by simp

end
